theory Spec2Isabelle
  imports Main "HOL-Library.Multiset"
begin

section \<open>The VK profile review bot (vks.py): shared queue, sessions, verdicts\<close>

text \<open>
  The bot keeps three pieces of state: the set \<open>reviewed_globally\<close> of profile URLs that
  some user has judged, the dictionary \<open>sessions\<close> from Telegram user ids to per-user
  sessions, and the file \<open>profiles.txt\<close>. The handlers are modelled as functions from the
  state to the new state and the list of messages sent.
\<close>

subsection \<open>Python text: code points, strip, split, splitlines\<close>

text \<open>
  A Python \<open>str\<close> is a sequence of Unicode code points; a code point is a natural number
  here, so that \<open>str.strip\<close> and \<open>str.splitlines\<close> see every character they treat
  specially. \<open>str\<close> turns an ASCII literal into such a text.
\<close>

type_synonym ustring = "nat list"

definition str :: "string \<Rightarrow> ustring" where
  "str cs = map of_char cs"

definition LF :: nat where
  "LF = 10"

definition CR :: nat where
  "CR = 13"

definition BAR :: nat where
  "BAR = 124"

text \<open>
  \<open>str.isspace\<close> for a single character, as CPython's \<open>_PyUnicode_IsWhitespace\<close> decides
  it: U+0009..U+000D, U+001C..U+0020, U+0085, U+00A0, U+1680, U+2000..U+200A, U+2028,
  U+2029, U+202F, U+205F, U+3000.
\<close>

definition is_space :: "nat \<Rightarrow> bool" where
  "is_space c \<longleftrightarrow>
     (9 \<le> c \<and> c \<le> 13) \<or> (28 \<le> c \<and> c \<le> 32) \<or> c = 133 \<or> c = 160 \<or> c = 5760 \<or>
     (8192 \<le> c \<and> c \<le> 8202) \<or> c = 8232 \<or> c = 8233 \<or> c = 8239 \<or> c = 8287 \<or> c = 12288"

text \<open>
  The line boundaries of \<open>str.splitlines\<close> (\<open>_PyUnicode_IsLinebreak\<close>): LF, VT, FF, CR,
  FS, GS, RS, NEL, LINE SEPARATOR, PARAGRAPH SEPARATOR.
\<close>

definition is_linebreak :: "nat \<Rightarrow> bool" where
  "is_linebreak c \<longleftrightarrow>
     (10 \<le> c \<and> c \<le> 13) \<or> (28 \<le> c \<and> c \<le> 30) \<or> c = 133 \<or> c = 8232 \<or> c = 8233"

text \<open>\<open>s.strip()\<close>: whitespace removed at both ends.\<close>

definition strip :: "ustring \<Rightarrow> ustring" where
  "strip s = rev (dropWhile is_space (rev (dropWhile is_space s)))"

text \<open>\<open>s.split("|")[0]\<close>: the text before the first bar, all of it when there is none.\<close>

definition split_bar_0 :: "ustring \<Rightarrow> ustring" where
  "split_bar_0 s = takeWhile (\<lambda>c. c \<noteq> BAR) s"

text \<open>
  \<open>s.splitlines()\<close>: the scan of CPython's \<open>stringlib_splitlines\<close>. \<open>acc\<close> holds the
  characters of the line being read, last one first. A line boundary ends the line (CR
  followed by LF is one boundary); text after the last boundary is a line when it is not
  empty.
\<close>

fun splitlines_from :: "ustring \<Rightarrow> ustring \<Rightarrow> ustring list" where
  "splitlines_from acc [] = (if acc = [] then [] else [rev acc])"
| "splitlines_from acc (c # cs) =
     (if is_linebreak c then
        rev acc #
          (case cs of
             [] \<Rightarrow> splitlines_from [] cs
           | d # ds \<Rightarrow> if c = CR \<and> d = LF then splitlines_from [] ds else splitlines_from [] cs)
      else splitlines_from (c # acc) cs)"

definition splitlines :: "ustring \<Rightarrow> ustring list" where
  "splitlines s = splitlines_from [] s"

text \<open>\<open>"\n".join(ls)\<close>.\<close>

fun join_lines :: "ustring list \<Rightarrow> ustring" where
  "join_lines [] = []"
| "join_lines [l] = l"
| "join_lines (l # m # ls) = l @ LF # join_lines (m # ls)"

text \<open>
  \<open>random.shuffle(x)\<close>, as the standard library runs it: for \<open>i\<close> from \<open>len(x) - 1\<close> down
  to 1, draw \<open>j = randbelow(i + 1)\<close> and exchange \<open>x[i]\<close> and \<open>x[j]\<close>. The draws are the
  parameter \<open>rnd\<close>: the draw made at index \<open>i\<close> is \<open>rnd i mod (i + 1)\<close>, so that every
  sequence of draws the generator can produce is some \<open>rnd\<close>.
\<close>

primrec shuffle_loop :: "(nat \<Rightarrow> nat) \<Rightarrow> nat \<Rightarrow> 'a list \<Rightarrow> 'a list" where
  "shuffle_loop rnd 0 xs = xs"
| "shuffle_loop rnd (Suc n) xs =
     (let i = Suc n; j = rnd i mod (i + 1)
      in shuffle_loop rnd n (xs[i := xs ! j, j := xs ! i]))"

definition shuffle :: "(nat \<Rightarrow> nat) \<Rightarrow> 'a list \<Rightarrow> 'a list" where
  "shuffle rnd xs = shuffle_loop rnd (length xs - 1) xs"

subsection \<open>State\<close>

text \<open>
  \<open>class Session\<close>. The field \<open>tmpdir\<close> (the directory of the downloaded avatar) is left
  out: no handler reads it to decide anything.
\<close>

record session =
  queue :: "ustring list"
  current :: "ustring option"
  accepted :: "ustring list"

definition new_session :: session where
  "new_session = \<lparr>queue = [], current = None, accepted = []\<rparr>"

text \<open>
  The module's globals and the file \<open>profiles.txt\<close>: \<open>None\<close> when the file does not
  exist, otherwise its text.
\<close>

record state =
  reviewed_globally :: "ustring set"
  sessions :: "int \<rightharpoonup> session"
  profiles_file :: "ustring option"

definition initial :: "ustring option \<Rightarrow> state" where
  "initial f = \<lparr>reviewed_globally = {}, sessions = Map.empty, profiles_file = f\<rparr>"

text \<open>\<open>get_session\<close>: the session of the user, created empty on first access.\<close>

definition get_session :: "int \<Rightarrow> state \<Rightarrow> state \<times> session" where
  "get_session user_id s =
     (case sessions s user_id of
        None \<Rightarrow> (s\<lparr>sessions := (sessions s)(user_id \<mapsto> new_session)\<rparr>, new_session)
      | Some x \<Rightarrow> (s, x))"

text \<open>
  A session is a mutable object held by the dictionary; an assignment to one of its fields
  is an update of the dictionary's entry.
\<close>

definition set_session :: "int \<Rightarrow> session \<Rightarrow> state \<Rightarrow> state" where
  "set_session user_id x s = s\<lparr>sessions := (sessions s)(user_id \<mapsto> x)\<rparr>"

subsection \<open>The profile file\<close>

text \<open>The key of a line, \<open>l.split("|")[0].strip()\<close>.\<close>

definition line_url :: "ustring \<Rightarrow> ustring" where
  "line_url l = strip (split_bar_0 l)"

text \<open>The loop of \<open>load_profiles\<close> over the lines of the file.\<close>

fun load_loop :: "ustring set \<Rightarrow> ustring list \<Rightarrow> ustring list" where
  "load_loop rv [] = []"
| "load_loop rv (l # ls) =
     (let line = strip l in
      if line = [] then load_loop rv ls
      else
        let url = line_url line in
        if url \<noteq> [] \<and> url \<notin> rv then url # load_loop rv ls else load_loop rv ls)"

definition load_profiles :: "(nat \<Rightarrow> nat) \<Rightarrow> state \<Rightarrow> ustring list" where
  "load_profiles rnd s =
     (case profiles_file s of
        None \<Rightarrow> []
      | Some body \<Rightarrow> shuffle rnd (load_loop (reviewed_globally s) (splitlines body)))"

definition remove_profile :: "ustring \<Rightarrow> state \<Rightarrow> state" where
  "remove_profile url s =
     (case profiles_file s of
        None \<Rightarrow> s
      | Some body \<Rightarrow>
          s\<lparr>profiles_file :=
              Some (join_lines (filter (\<lambda>l. line_url l \<noteq> url) (splitlines body)) @ [LF])\<rparr>)"

text \<open>The body of the loop of \<open>mark_reviewed\<close>, for one session.\<close>

definition purge_session :: "ustring \<Rightarrow> session \<Rightarrow> session" where
  "purge_session url x =
     x\<lparr>queue := (if url \<in> set (queue x) then remove1 url (queue x) else queue x),
       current := (if current x = Some url then None else current x)\<rparr>"

definition mark_reviewed :: "ustring \<Rightarrow> state \<Rightarrow> state" where
  "mark_reviewed url s =
     s\<lparr>reviewed_globally := insert url (reviewed_globally s),
       sessions := (\<lambda>u. map_option (purge_session url) (sessions s u))\<rparr>"

text \<open>
  \<open>mark_reviewed\<close> has no \<open>return\<close> statement: a call evaluates to \<open>None\<close>, whatever
  the URL and the state.
\<close>

datatype py_value = PyNone | PyBool bool

definition mark_reviewed_returns :: "ustring \<Rightarrow> state \<Rightarrow> py_value" where
  "mark_reviewed_returns url s = PyNone"

subsection \<open>Messages and handlers\<close>

text \<open>
  The call to VK that \<open>send_next\<close> makes through \<open>get_avatar_path\<close> is not guarded:
  \<open>vk_api\<close> lets the exceptions of \<open>requests.get\<close>, \<open>raise_for_status\<close> and \<open>json\<close>
  escape. Whether the call returns is a parameter of every handler that reaches
  \<open>send_next\<close>. (A failed download or screenshot is caught and gives the text fallback.)
\<close>

datatype vk_call = VkReturns | VkRaises

datatype error = ValueError | RequestError

text \<open>
  What a handler does that is seen from outside: the messages it sends and, last, the
  exception that escapes it, if one does. \<open>Present u url\<close> is the profile shown to user
  \<open>u\<close>: the avatar (or, when none could be fetched, the text that says so) with the
  caption and the keyboard of the two buttons, whose callback data are \<open>yes:u\<close> and
  \<open>no:u\<close>. The calls to Telegram are outside the model and are taken to return.
\<close>

datatype out =
    Complete int "ustring list"
  | Loading int ustring
  | Present int ustring
  | NoProfiles int
  | Started int nat
  | Status int nat nat nat
  | NoneAccepted int
  | AcceptedList int "ustring list"
  | NotYourSession int
  | Added int ustring
  | Removed int
  | Uncaught error

definition send_next :: "vk_call \<Rightarrow> int \<Rightarrow> state \<Rightarrow> state \<times> out list" where
  "send_next vk user_id s =
     (let (s1, x) = get_session user_id s in
      case queue x of
        [] \<Rightarrow> (s1, [Complete user_id (accepted x)])
      | url # _ \<Rightarrow>
          (set_session user_id (x\<lparr>current := Some url\<rparr>) s1,
           Loading user_id url #
             (case vk of
                VkReturns \<Rightarrow> [Present user_id url]
              | VkRaises \<Rightarrow> [Uncaught RequestError])))"

definition cmd_start :: "vk_call \<Rightarrow> int \<Rightarrow> (nat \<Rightarrow> nat) \<Rightarrow> state \<Rightarrow> state \<times> out list" where
  "cmd_start vk user_id rnd s =
     (let (s1, x) = get_session user_id s;
          profiles = load_profiles rnd s1
      in if profiles = [] then (s1, [NoProfiles user_id])
         else
           let s2 = set_session user_id (x\<lparr>queue := profiles, accepted := [], current := None\<rparr>) s1;
               (s3, outs) = send_next vk user_id s2
           in (s3, Started user_id (length profiles) # outs))"

definition cmd_skip :: "vk_call \<Rightarrow> int \<Rightarrow> state \<Rightarrow> state \<times> out list" where
  "cmd_skip vk user_id s =
     (let (s1, x) = get_session user_id s;
          s2 = (if queue x \<noteq> [] then set_session user_id (x\<lparr>queue := tl (queue x)\<rparr>) s1 else s1)
      in send_next vk user_id s2)"

definition cmd_status :: "int \<Rightarrow> state \<Rightarrow> state \<times> out list" where
  "cmd_status user_id s =
     (let (s1, x) = get_session user_id s
      in (s1, [Status user_id (length (queue x)) (length (accepted x)) (card (reviewed_globally s1))]))"

definition cmd_accepted :: "int \<Rightarrow> state \<Rightarrow> state \<times> out list" where
  "cmd_accepted user_id s =
     (let (s1, x) = get_session user_id s
      in if accepted x = [] then (s1, [NoneAccepted user_id])
         else (s1, [AcceptedList user_id (accepted x)]))"

text \<open>
  The callback data of a pressed button, after \<open>query.data.split(":")\<close>: the action is
  \<open>parts[0]\<close>; the owner field is absent (\<open>len(parts) \<le> 1\<close>), or \<open>int(parts[1])\<close>
  gives a number, or \<open>int\<close> raises \<open>ValueError\<close>.
\<close>

datatype owner_field = NoOwner | Owner int | BadOwner

text \<open>
  \<open>owner_id = int(parts[1]) if len(parts) > 1 else query.from_user.id\<close>.
\<close>

definition owner_of :: "int \<Rightarrow> owner_field \<Rightarrow> error + int" where
  "owner_of from_user field =
     (case field of
        NoOwner \<Rightarrow> Inr from_user
      | Owner n \<Rightarrow> Inr n
      | BadOwner \<Rightarrow> Inl ValueError)"

text \<open>
  \<open>not session.current\<close> holds for \<open>None\<close> and for the empty string.
\<close>

definition no_current :: "session \<Rightarrow> bool" where
  "no_current x \<longleftrightarrow> (case current x of None \<Rightarrow> True | Some url \<Rightarrow> url = [])"

text \<open>
  The part of \<open>on_callback\<close> after the two early returns: \<open>url\<close> is the current
  profile of the owner's session \<open>x\<close>.
\<close>

definition on_callback_action :: "vk_call \<Rightarrow> int \<Rightarrow> ustring \<Rightarrow> ustring \<Rightarrow> session \<Rightarrow> state \<Rightarrow> state \<times> out list" where
  "on_callback_action vk owner_id action url x s1 =
     (if action = str ''yes'' then
        let s2 = set_session owner_id (x\<lparr>accepted := accepted x @ [url]\<rparr>) s1;
            s3 = mark_reviewed url s2;
            (s4, outs) = send_next vk owner_id s3
        in (s4, Added owner_id url # outs)
      else if action = str ''no'' then
        let s2 = mark_reviewed url s1;
            s3 = remove_profile url s2;
            (s4, outs) = send_next vk owner_id s3
        in (s4, Removed owner_id # outs)
      else send_next vk owner_id s1)"

definition on_callback :: "vk_call \<Rightarrow> int \<Rightarrow> ustring \<Rightarrow> owner_field \<Rightarrow> state \<Rightarrow> error + state \<times> out list" where
  "on_callback vk from_user action field s =
     (case owner_of from_user field of
        Inl e \<Rightarrow> Inl e
      | Inr owner_id \<Rightarrow>
          if from_user \<noteq> owner_id then Inr (s, [NotYourSession from_user])
          else
            let (s1, x) = get_session owner_id s in
            if no_current x then Inr (s1, [])
            else Inr (on_callback_action vk owner_id action (the (current x)) x s1))"

subsection \<open>Runs\<close>

text \<open>
  What reaches the bot: the four commands and a button press by \<open>from_user\<close> carrying an
  action and an owner field; with each, whether the call to VK made while it is handled
  returns. The \<open>ValueError\<close> of \<open>int\<close> escapes \<open>on_callback\<close> before any assignment, so
  the state is then as it was.
\<close>

datatype event =
    Start int "nat \<Rightarrow> nat" vk_call
  | Skip int vk_call
  | StatusCmd int
  | AcceptedCmd int
  | Callback int ustring owner_field vk_call

fun step :: "state \<Rightarrow> event \<Rightarrow> state \<times> out list" where
  "step s (Start u rnd vk) = cmd_start vk u rnd s"
| "step s (Skip u vk) = cmd_skip vk u s"
| "step s (StatusCmd u) = cmd_status u s"
| "step s (AcceptedCmd u) = cmd_accepted u s"
| "step s (Callback u action field vk) =
     (case on_callback vk u action field s of Inl e \<Rightarrow> (s, [Uncaught e]) | Inr r \<Rightarrow> r)"

fun run :: "state \<Rightarrow> event list \<Rightarrow> state \<times> out list" where
  "run s [] = (s, [])"
| "run s (e # es) =
     (let (s1, o1) = step s e; (s2, o2) = run s1 es in (s2, o1 @ o2))"

text \<open>The session of a user as \<open>get_session\<close> would return it.\<close>

definition session_of :: "state \<Rightarrow> int \<Rightarrow> session" where
  "session_of s u = snd (get_session u s)"

subsection \<open>Notions used in the statements\<close>

text \<open>The lines of the file as \<open>remove_profile\<close> reads them, and the keys it compares.\<close>

definition file_lines :: "state \<Rightarrow> ustring list" where
  "file_lines s = (case profiles_file s of None \<Rightarrow> [] | Some body \<Rightarrow> splitlines body)"

definition file_keys :: "state \<Rightarrow> ustring set" where
  "file_keys s = line_url ` set (file_lines s)"

text \<open>A press of the button \<open>no\<close>.\<close>

fun is_reject :: "event \<Rightarrow> bool" where
  "is_reject (Callback u action field vk) = (action = str ''no'')"
| "is_reject _ = False"

text \<open>Whitespace removed at the right end only; a text without line boundaries.\<close>

definition rtrim :: "ustring \<Rightarrow> ustring" where
  "rtrim s = rev (dropWhile is_space (rev s))"

definition clean :: "ustring \<Rightarrow> bool" where
  "clean l \<longleftrightarrow> (\<forall>c\<in>set l. \<not> is_linebreak c)"

text \<open>
  A file that lists no URL twice, and the queues as they should be: no URL twice in a
  queue, no retired URL in a queue. \<open>sound_result\<close> is what a handler then keeps: both
  of these, the retired URLs, and no retired URL among the profiles it presents.
\<close>

definition no_dups :: "state \<Rightarrow> bool" where
  "no_dups s \<longleftrightarrow> distinct (load_loop {} (file_lines s))"

definition queues_ok :: "state \<Rightarrow> bool" where
  "queues_ok s \<longleftrightarrow>
     (\<forall>u. distinct (queue (session_of s u)) \<and>
          set (queue (session_of s u)) \<inter> reviewed_globally s = {})"

definition sound_result :: "state \<Rightarrow> state \<times> out list \<Rightarrow> bool" where
  "sound_result s r \<longleftrightarrow>
     no_dups (fst r) \<and> queues_ok (fst r) \<and>
     reviewed_globally s \<subseteq> reviewed_globally (fst r) \<and>
     (\<forall>v k. Present v k \<in> set (snd r) \<longrightarrow> k \<notin> reviewed_globally (fst r))"

text \<open>
  The sessions as they should be: the current profile of a session is not a retired one,
  and every accepted profile is retired.
\<close>

definition settled :: "state \<Rightarrow> bool" where
  "settled s \<longleftrightarrow>
     (\<forall>u. (\<forall>k. current (session_of s u) = Some k \<longrightarrow> k \<notin> reviewed_globally s) \<and>
          set (accepted (session_of s u)) \<subseteq> reviewed_globally s)"

subsection \<open>Example inputs\<close>

text \<open>
  Two profile URLs, files that list them (one URL per line), the draws that make every
  \<open>randbelow\<close> return 0, and the states some short runs of the bot end in.
\<close>

definition url_a :: ustring where
  "url_a = str ''a''"

definition url_b :: ustring where
  "url_b = str ''b''"

definition draw0 :: "nat \<Rightarrow> nat" where
  "draw0 i = 0"

text \<open>The draws that make \<open>randbelow(i + 1)\<close> return \<open>i\<close>: the list stays in file order.\<close>

definition draw_last :: "nat \<Rightarrow> nat" where
  "draw_last i = i"

definition file_a :: ustring where
  "file_a = url_a @ [LF]"

definition file_a_open :: ustring where
  "file_a_open = url_a"

definition file_ab :: ustring where
  "file_ab = url_a @ [LF] @ url_b @ [LF]"

definition file_aa :: ustring where
  "file_aa = url_a @ [LF] @ url_a @ [LF]"

definition file_aaa :: ustring where
  "file_aaa = url_a @ [LF] @ url_a @ [LF] @ url_a @ [LF]"

text \<open>A file whose lines carry labels.\<close>

definition file_labels :: ustring where
  "file_labels = str ''a | Ann, 20'' @ [LF] @ str ''b | Bob'' @ [LF]"

text \<open>User 1 starts on the file \<open>a\<close> and presses \<open>yes\<close>.\<close>

definition done_a :: state where
  "done_a = fst (run (initial (Some file_a)) [Start 1 draw0 VkReturns, Callback 1 (str ''yes'') (Owner 1) VkReturns])"

text \<open>User 1 starts on the file \<open>a\<close> and skips.\<close>

definition skipped_a :: state where
  "skipped_a = fst (run (initial (Some file_a)) [Start 1 draw0 VkReturns, Skip 1 VkReturns])"

text \<open>User 1 starts on the file that lists \<open>a\<close> twice.\<close>

definition started_aa :: state where
  "started_aa = fst (run (initial (Some file_aa)) [Start 1 draw0 VkReturns])"

text \<open>User 1 starts on the file that lists \<open>a\<close> twice and presses \<open>yes\<close>.\<close>

definition accepted_aa :: state where
  "accepted_aa =
     fst (run (initial (Some file_aa)) [Start 1 draw0 VkReturns, Callback 1 (str ''yes'') (Owner 1) VkReturns])"

text \<open>Users 1 and 2 start on the file that lists \<open>a\<close> twice; user 1 presses \<open>yes\<close>.\<close>

definition shared_aa :: state where
  "shared_aa =
     fst (run (initial (Some file_aa))
       [Start 1 draw0 VkReturns, Start 2 draw0 VkReturns, Callback 1 (str ''yes'') (Owner 1) VkReturns])"

text \<open>The same on the file that lists \<open>a\<close> three times.\<close>

definition shared_aaa :: state where
  "shared_aaa =
     fst (run (initial (Some file_aaa))
       [Start 1 draw0 VkReturns, Start 2 draw0 VkReturns, Callback 1 (str ''yes'') (Owner 1) VkReturns])"

text \<open>User 1 starts on the file that lists \<open>a\<close> and \<open>b\<close>.\<close>

definition started_ab :: state where
  "started_ab = fst (run (initial (Some file_ab)) [Start 1 draw0 VkReturns])"

section \<open>Properties\<close>

text \<open>The definitions a concrete run is evaluated with.\<close>

lemmas text_defs = str_def LF_def CR_def BAR_def is_space_def is_linebreak_def strip_def
  split_bar_0_def splitlines_def line_url_def shuffle_def

lemmas bot_defs = initial_def new_session_def get_session_def set_session_def session_of_def
  load_profiles_def remove_profile_def purge_session_def mark_reviewed_def send_next_def
  cmd_start_def cmd_skip_def cmd_status_def cmd_accepted_def owner_of_def no_current_def
  on_callback_action_def on_callback_def file_lines_def file_keys_def mark_reviewed_returns_def

lemmas example_defs = url_a_def url_b_def draw0_def file_a_def file_a_open_def file_ab_def
  file_aa_def file_aaa_def done_a_def skipped_a_def accepted_aa_def shared_aa_def
  shared_aaa_def started_ab_def file_labels_def started_aa_def draw_last_def

subsection \<open>Facts about \<open>strip\<close> and the key of a line\<close>

lemma BAR_not_space: "\<not> is_space BAR"
  by (simp add: is_space_def BAR_def)

lemma ltrim_takeWhile:
  "dropWhile is_space (takeWhile (\<lambda>c. c \<noteq> BAR) s) = takeWhile (\<lambda>c. c \<noteq> BAR) (dropWhile is_space s)"
  using BAR_not_space by (induction s) auto

lemma rtrim_Nil: "rtrim [] = []"
  by (simp add: rtrim_def)

lemma rtrim_empty_iff: "rtrim s = [] \<longleftrightarrow> (\<forall>c\<in>set s. is_space c)"
  by (simp add: rtrim_def dropWhile_eq_Nil_conv)

lemma rtrim_Cons: "rtrim (c # cs) = (if rtrim cs = [] \<and> is_space c then [] else c # rtrim cs)"
  by (auto simp: rtrim_def dropWhile_append dropWhile_eq_Nil_conv)

lemma rtrim_takeWhile:
  "rtrim (takeWhile (\<lambda>c. c \<noteq> BAR) (rtrim s)) = rtrim (takeWhile (\<lambda>c. c \<noteq> BAR) s)"
proof (induction s)
  case Nil
  show ?case by (simp add: rtrim_Nil)
next
  case (Cons c cs)
  show ?case
  proof (cases "rtrim cs = [] \<and> is_space c")
    case True
    then have "\<forall>d\<in>set cs. d \<noteq> BAR"
      using BAR_not_space by (auto simp: rtrim_empty_iff)
    then have tw: "takeWhile (\<lambda>c. c \<noteq> BAR) cs = cs"
      by (simp add: takeWhile_eq_all_conv)
    have "rtrim (takeWhile (\<lambda>c. c \<noteq> BAR) cs) = []"
      unfolding tw using True by simp
    with True show ?thesis
      by (simp add: rtrim_Cons rtrim_Nil)
  next
    case False
    with Cons show ?thesis
      by (auto simp: rtrim_Cons rtrim_Nil)
  qed
qed

lemma ltrim_rtrim: "dropWhile is_space (rtrim s) = rtrim (dropWhile is_space s)"
  by (induction s) (auto simp: rtrim_Cons rtrim_Nil)

lemma strip_rtrim: "strip s = rtrim (dropWhile is_space s)"
  by (simp add: strip_def rtrim_def)

lemma line_url_strip: "line_url (strip l) = line_url l"
proof -
  let ?t = "takeWhile (\<lambda>c. c \<noteq> BAR)"
  have "line_url (strip l) = rtrim (dropWhile is_space (?t (rtrim (dropWhile is_space l))))"
    by (simp add: line_url_def split_bar_0_def strip_rtrim)
  also have "\<dots> = rtrim (?t (dropWhile is_space (rtrim (dropWhile is_space l))))"
    by (simp only: ltrim_takeWhile)
  also have "\<dots> = rtrim (?t (rtrim (dropWhile is_space l)))"
    by (simp add: ltrim_rtrim)
  also have "\<dots> = rtrim (?t (dropWhile is_space l))"
    by (rule rtrim_takeWhile)
  also have "\<dots> = line_url l"
    by (simp add: line_url_def split_bar_0_def strip_rtrim ltrim_takeWhile)
  finally show ?thesis .
qed

lemma strip_Nil: "strip [] = []"
  by (simp add: strip_def)

lemma line_url_Nil: "line_url [] = []"
  by (simp add: line_url_def split_bar_0_def strip_def)

lemma load_loop_filter:
  "load_loop rv ls = filter (\<lambda>u. u \<noteq> [] \<and> u \<notin> rv) (map line_url ls)"
proof (induction ls)
  case Nil
  show ?case by simp
next
  case (Cons l ls)
  have "strip l = [] \<Longrightarrow> line_url l = []"
    using line_url_strip [of l] by (simp add: line_url_Nil)
  with Cons show ?case
    by (auto simp: Let_def line_url_strip)
qed

subsection \<open>Facts about \<open>splitlines\<close> and \<open>join_lines\<close>\<close>

lemma clean_simps: "clean []" "clean (c # l) \<longleftrightarrow> \<not> is_linebreak c \<and> clean l" "clean (rev l) = clean l"
  by (auto simp: clean_def)

lemma splitlines_from_clean:
  "clean acc \<Longrightarrow> l \<in> set (splitlines_from acc s) \<Longrightarrow> clean l"
proof (induction "length s" arbitrary: acc s rule: less_induct)
  case less
  show ?case
  proof (cases s)
    case Nil
    with less.prems show ?thesis by (simp add: clean_simps split: if_splits)
  next
    case (Cons c cs)
    note s = Cons
    show ?thesis
    proof (cases "is_linebreak c")
      case False
      with less.prems s have "l \<in> set (splitlines_from (c # acc) cs)" by simp
      moreover have "clean (c # acc)" using False less.prems by (simp add: clean_simps)
      ultimately show ?thesis using less.hyps [of cs "c # acc"] s by simp
    next
      case True
      show ?thesis
      proof (cases "cs \<noteq> [] \<and> c = CR \<and> hd cs = LF")
        case True
        then obtain ds where cs: "cs = LF # ds" by (cases cs) auto
        with \<open>is_linebreak c\<close> True less.prems s
        have "l = rev acc \<or> l \<in> set (splitlines_from [] ds)" by simp
        then show ?thesis
          using less.hyps [of ds "[]"] s cs less.prems by (auto simp: clean_simps)
      next
        case False
        with \<open>is_linebreak c\<close> less.prems s
        have "l = rev acc \<or> l \<in> set (splitlines_from [] cs)"
          by (cases cs) auto
        then show ?thesis
          using less.hyps [of cs "[]"] s less.prems by (auto simp: clean_simps)
      qed
    qed
  qed
qed

lemma splitlines_clean: "l \<in> set (splitlines s) \<Longrightarrow> clean l"
  using splitlines_from_clean [of "[]" l s] by (simp add: splitlines_def clean_simps)

lemma LF_linebreak: "is_linebreak LF" "LF \<noteq> CR"
  by (simp_all add: is_linebreak_def LF_def CR_def)

lemma splitlines_from_line:
  "clean l \<Longrightarrow>
   splitlines_from acc (l @ LF # rest) = (rev acc @ l) # splitlines_from [] rest"
  by (induction l arbitrary: acc) (auto simp: LF_linebreak clean_simps split: list.splits)

lemma splitlines_from_join:
  "ls \<noteq> [] \<Longrightarrow> \<forall>l\<in>set ls. clean l \<Longrightarrow>
   splitlines_from [] (join_lines ls @ [LF]) = ls"
proof (induction ls rule: join_lines.induct)
  case 1
  then show ?case by simp
next
  case (2 l)
  then show ?case by (simp add: splitlines_from_line)
next
  case (3 l m ls)
  then show ?case by (simp add: splitlines_from_line)
qed

lemma splitlines_join:
  "\<forall>l\<in>set ls. clean l \<Longrightarrow>
   splitlines (join_lines ls @ [LF]) = (if ls = [] then [[]] else ls)"
  using splitlines_from_join [of ls] by (auto simp: splitlines_def LF_linebreak)

subsection \<open>The shuffle permutes\<close>

lemma shuffle_loop_length: "length (shuffle_loop rnd n xs) = length xs"
  by (induction n arbitrary: xs) (simp_all add: Let_def)

lemma shuffle_loop_mset: "n < length xs \<Longrightarrow> mset (shuffle_loop rnd n xs) = mset xs"
proof (induction n arbitrary: xs)
  case 0
  show ?case by simp
next
  case (Suc n)
  let ?j = "rnd (Suc n) mod (Suc n + 1)"
  let ?ys = "xs[Suc n := xs ! ?j, ?j := xs ! Suc n]"
  have "?j < Suc n + 1" by (rule mod_less_divisor) simp
  with Suc.prems have j: "?j < length xs" by linarith
  have "mset (shuffle_loop rnd n ?ys) = mset ?ys"
    by (rule Suc.IH) (use Suc.prems in simp)
  also have "mset ?ys = mset xs"
    using j Suc.prems by (rule mset_swap)
  finally show ?case by (simp add: Let_def)
qed

lemma shuffle_mset: "mset (shuffle rnd xs) = mset xs"
proof (cases xs)
  case Nil
  then show ?thesis by (simp add: shuffle_def)
next
  case (Cons x ys)
  then show ?thesis by (simp add: shuffle_def shuffle_loop_mset)
qed

lemma shuffle_set: "set (shuffle rnd xs) = set xs"
  using shuffle_mset [of rnd xs] by (rule mset_eq_setD)

lemma shuffle_Nil_iff: "shuffle rnd xs = [] \<longleftrightarrow> xs = []"
  using shuffle_mset [of rnd xs] by (metis mset_zero_iff)


subsection \<open>Sessions seen through \<open>session_of\<close>\<close>

lemma get_session_snd: "snd (get_session u s) = session_of s u"
  by (simp add: session_of_def)

lemma get_session_frame:
  "reviewed_globally (fst (get_session u s)) = reviewed_globally s"
  "profiles_file (fst (get_session u s)) = profiles_file s"
  by (simp_all add: get_session_def split: option.splits)

lemma session_of_get: "session_of (fst (get_session u s)) v = session_of s v"
  by (simp add: session_of_def get_session_def split: option.splits)

lemma set_session_frame:
  "reviewed_globally (set_session u x s) = reviewed_globally s"
  "profiles_file (set_session u x s) = profiles_file s"
  by (simp_all add: set_session_def)

lemma session_of_set: "session_of (set_session u x s) v = (if v = u then x else session_of s v)"
  by (simp add: session_of_def get_session_def set_session_def split: option.splits)

lemma purge_new_session: "purge_session url new_session = new_session"
  by (simp add: purge_session_def new_session_def)

lemma mark_reviewed_frame:
  "reviewed_globally (mark_reviewed url s) = insert url (reviewed_globally s)"
  "profiles_file (mark_reviewed url s) = profiles_file s"
  by (simp_all add: mark_reviewed_def)

lemma session_of_mark: "session_of (mark_reviewed url s) v = purge_session url (session_of s v)"
  by (simp add: session_of_def get_session_def mark_reviewed_def purge_new_session split: option.splits)

lemma remove_profile_frame:
  "reviewed_globally (remove_profile url s) = reviewed_globally s"
  "session_of (remove_profile url s) v = session_of s v"
  by (simp_all add: remove_profile_def session_of_def get_session_def split: option.splits)

lemma purge_session_fields:
  "queue (purge_session url x) = remove1 url (queue x)"
  "current (purge_session url x) = (if current x = Some url then None else current x)"
  "accepted (purge_session url x) = accepted x"
  by (simp_all add: purge_session_def remove1_idem)

lemma send_next_eq:
  "send_next vk u s =
     (case queue (session_of s u) of
        [] \<Rightarrow> (fst (get_session u s), [Complete u (accepted (session_of s u))])
      | url # _ \<Rightarrow>
          (set_session u ((session_of s u)\<lparr>current := Some url\<rparr>) (fst (get_session u s)),
           Loading u url #
             (case vk of VkReturns \<Rightarrow> [Present u url] | VkRaises \<Rightarrow> [Uncaught RequestError])))"
  by (simp add: send_next_def case_prod_unfold Let_def get_session_snd split: list.splits)

lemma send_next_frame:
  "reviewed_globally (fst (send_next vk u s)) = reviewed_globally s"
  "profiles_file (fst (send_next vk u s)) = profiles_file s"
  by (simp_all add: send_next_eq get_session_frame set_session_frame split: list.splits)

lemma session_of_send_next:
  "session_of (fst (send_next vk u s)) v =
     (if v = u \<and> queue (session_of s u) \<noteq> []
      then (session_of s u)\<lparr>current := Some (hd (queue (session_of s u)))\<rparr>
      else session_of s v)"
  by (simp add: send_next_eq session_of_get session_of_set split: list.splits)

lemma snd_send_next:
  "snd (send_next vk u s) =
     (case queue (session_of s u) of
        [] \<Rightarrow> [Complete u (accepted (session_of s u))]
      | url # _ \<Rightarrow>
          Loading u url #
            (case vk of VkReturns \<Rightarrow> [Present u url] | VkRaises \<Rightarrow> [Uncaught RequestError]))"
  by (simp add: send_next_eq split: list.splits)

subsection \<open>The file after a removal\<close>

lemma file_lines_remove:
  "profiles_file s = Some body \<Longrightarrow>
   file_lines (remove_profile url s) =
     (if filter (\<lambda>l. line_url l \<noteq> url) (splitlines body) = [] then [[]]
      else filter (\<lambda>l. line_url l \<noteq> url) (splitlines body))"
proof -
  assume f: "profiles_file s = Some body"
  have "\<forall>l\<in>set (filter (\<lambda>l. line_url l \<noteq> url) (splitlines body)). clean l"
    by (auto intro: splitlines_clean)
  then show ?thesis
    using f by (simp add: file_lines_def remove_profile_def splitlines_join)
qed

lemma file_lines_remove_None:
  "profiles_file s = None \<Longrightarrow> remove_profile url s = s"
  by (simp add: remove_profile_def)

lemma splitlines_LF: "splitlines [LF] = [[]]"
  using splitlines_join [of "[]"] by simp

lemma load_loop_blank: "load_loop rv [[]] = []"
  by (simp add: strip_Nil)

lemma load_loop_remove:
  "load_loop rv (file_lines (remove_profile url s)) =
   filter (\<lambda>k. k \<noteq> url) (load_loop rv (file_lines s))"
proof (cases "profiles_file s")
  case None
  then show ?thesis by (simp add: file_lines_remove_None file_lines_def)
next
  case (Some body)
  let ?ls = "filter (\<lambda>l. line_url l \<noteq> url) (splitlines body)"
  have kept: "load_loop rv ?ls = filter (\<lambda>k. k \<noteq> url) (load_loop rv (splitlines body))"
    by (simp add: load_loop_filter filter_map comp_def conj_commute)
  have lines: "file_lines s = splitlines body"
    using Some by (simp add: file_lines_def)
  show ?thesis
  proof (cases "?ls = []")
    case True
    then have "file_lines (remove_profile url s) = [[]]"
      using Some by (simp add: file_lines_remove)
    moreover have "load_loop rv ?ls = []"
      unfolding True by simp
    ultimately show ?thesis
      using kept lines by (simp only: load_loop_blank)
  next
    case False
    then have "file_lines (remove_profile url s) = ?ls"
      using Some by (simp add: file_lines_remove)
    then show ?thesis
      using kept lines by simp
  qed
qed

lemma load_profiles_eq:
  "load_profiles rnd s = shuffle rnd (load_loop (reviewed_globally s) (file_lines s))"
  by (simp add: load_profiles_def file_lines_def shuffle_def split: option.splits)

lemma load_profiles_mset:
  "mset (load_profiles rnd s) =
   mset (filter (\<lambda>k. k \<noteq> [] \<and> k \<notin> reviewed_globally s) (map line_url (file_lines s)))"
  by (simp add: load_profiles_eq shuffle_mset load_loop_filter)

lemma load_profiles_set:
  "set (load_profiles rnd s) = {k \<in> file_keys s. k \<noteq> [] \<and> k \<notin> reviewed_globally s}"
  by (auto simp: load_profiles_eq shuffle_set load_loop_filter file_keys_def)

lemma load_profiles_cong:
  "reviewed_globally s' = reviewed_globally s \<Longrightarrow> profiles_file s' = profiles_file s \<Longrightarrow>
   load_profiles rnd s' = load_profiles rnd s"
  by (simp add: load_profiles_eq file_lines_def)

lemma file_keys_remove: "k \<noteq> [] \<Longrightarrow> k \<notin> file_keys (remove_profile k s)"
proof (cases "profiles_file s")
  case None
  then show ?thesis by (simp add: file_lines_remove_None file_keys_def file_lines_def)
next
  case (Some body)
  assume "k \<noteq> []"
  then show ?thesis
    using Some by (auto simp: file_keys_def file_lines_remove line_url_Nil)
qed

lemma remove_profile_absent:
  assumes "k \<notin> file_keys s"
  shows "load_profiles rnd (remove_profile k s) = load_profiles rnd s"
proof -
  have "\<forall>x\<in>set (load_loop (reviewed_globally s) (file_lines s)). x \<noteq> k"
    using assms by (auto simp: load_loop_filter file_keys_def)
  then have "filter (\<lambda>x. x \<noteq> k) (load_loop (reviewed_globally s) (file_lines s)) =
             load_loop (reviewed_globally s) (file_lines s)"
    by (simp add: filter_id_conv)
  then show ?thesis
    by (simp add: load_profiles_eq load_loop_remove remove_profile_frame)
qed

lemma remove_profile_idem: "remove_profile k (remove_profile k s) = remove_profile k s"
proof (cases "profiles_file s")
  case None
  then show ?thesis by (simp add: file_lines_remove_None)
next
  case (Some body)
  let ?ls = "filter (\<lambda>l. line_url l \<noteq> k) (splitlines body)"
  have clean: "\<forall>l\<in>set ?ls. clean l"
    by (auto intro: splitlines_clean)
  have "join_lines (filter (\<lambda>l. line_url l \<noteq> k) (splitlines (join_lines ?ls @ [LF]))) = join_lines ?ls"
  proof (cases "?ls = []")
    case True
    then show ?thesis by (simp add: splitlines_LF)
  next
    case False
    then show ?thesis using clean by (simp add: splitlines_join)
  qed
  then show ?thesis
    using Some by (simp add: remove_profile_def)
qed


subsection \<open>The handlers\<close>

lemma load_profiles_get: "load_profiles rnd (fst (get_session u s)) = load_profiles rnd s"
  by (rule load_profiles_cong) (simp_all add: get_session_frame)

lemma load_profiles_nonempty: "k \<in> set (load_profiles rnd s) \<Longrightarrow> k \<noteq> []"
  by (simp add: load_profiles_set)

lemma cmd_start_frame:
  "reviewed_globally (fst (cmd_start vk u rnd s)) = reviewed_globally s"
  "profiles_file (fst (cmd_start vk u rnd s)) = profiles_file s"
  by (simp_all add: cmd_start_def case_prod_unfold Let_def send_next_frame set_session_frame
      get_session_frame)

lemma cmd_start_session:
  "session_of (fst (cmd_start vk u rnd s)) v =
     (if v = u \<and> load_profiles rnd s \<noteq> []
      then \<lparr>queue = load_profiles rnd s, current = Some (hd (load_profiles rnd s)), accepted = []\<rparr>
      else session_of s v)"
  by (simp add: cmd_start_def case_prod_unfold Let_def load_profiles_get session_of_send_next
      session_of_set session_of_get get_session_snd)

lemma cmd_start_out:
  "load_profiles rnd s = [] \<Longrightarrow> snd (cmd_start vk u rnd s) = [NoProfiles u]"
  by (simp add: cmd_start_def case_prod_unfold Let_def load_profiles_get)

lemma cmd_skip_frame:
  "reviewed_globally (fst (cmd_skip vk u s)) = reviewed_globally s"
  "profiles_file (fst (cmd_skip vk u s)) = profiles_file s"
  by (simp_all add: cmd_skip_def case_prod_unfold Let_def send_next_frame set_session_frame
      get_session_frame)

lemma cmd_status_frame:
  "reviewed_globally (fst (cmd_status u s)) = reviewed_globally s"
  "profiles_file (fst (cmd_status u s)) = profiles_file s"
  by (simp_all add: cmd_status_def case_prod_unfold Let_def get_session_frame)

lemma cmd_accepted_frame:
  "reviewed_globally (fst (cmd_accepted u s)) = reviewed_globally s"
  "profiles_file (fst (cmd_accepted u s)) = profiles_file s"
  by (simp_all add: cmd_accepted_def case_prod_unfold Let_def get_session_frame)

lemma str_yes_no: "str ''yes'' \<noteq> str ''no''"
  by (simp add: str_def)

lemma on_callback_action_file:
  "action \<noteq> str ''no'' \<Longrightarrow>
   profiles_file (fst (on_callback_action vk u action url x s)) = profiles_file s"
  by (simp add: on_callback_action_def case_prod_unfold Let_def send_next_frame
      mark_reviewed_frame set_session_frame)

lemma on_callback_file:
  "action \<noteq> str ''no'' \<Longrightarrow> on_callback vk u action field s = Inr r \<Longrightarrow>
   profiles_file (fst r) = profiles_file s"
  by (auto simp: on_callback_def case_prod_unfold Let_def on_callback_action_file
      get_session_frame split: sum.splits if_splits)

lemma step_file: "\<not> is_reject e \<Longrightarrow> profiles_file (fst (step s e)) = profiles_file s"
proof (cases e)
  case (Callback u action field vk)
  assume "\<not> is_reject e"
  with Callback have "action \<noteq> str ''no''" by simp
  then show ?thesis
    using Callback on_callback_file [of action vk u field s]
    by (simp split: sum.splits)
qed (simp_all add: cmd_start_frame cmd_skip_frame cmd_status_frame cmd_accepted_frame)

lemma run_file:
  "\<forall>e\<in>set es. \<not> is_reject e \<Longrightarrow> profiles_file (fst (run s es)) = profiles_file s"
proof (induction es arbitrary: s)
  case Nil
  show ?case by simp
next
  case (Cons e es)
  then have "profiles_file (fst (run (fst (step s e)) es)) = profiles_file (fst (step s e))"
    by simp
  with Cons.prems show ?case
    by (simp add: case_prod_unfold Let_def step_file)
qed


subsection \<open>Files that list no URL twice\<close>

lemma load_loop_rv: "load_loop rv ls = filter (\<lambda>k. k \<notin> rv) (load_loop {} ls)"
  by (simp add: load_loop_filter conj_commute)

lemma load_profiles_distinct: "no_dups s \<Longrightarrow> distinct (load_profiles rnd s)"
proof -
  assume "no_dups s"
  then have "distinct (load_loop (reviewed_globally s) (file_lines s))"
    by (subst load_loop_rv) (simp add: no_dups_def)
  moreover have "mset (load_profiles rnd s) = mset (load_loop (reviewed_globally s) (file_lines s))"
    by (simp add: load_profiles_eq shuffle_mset)
  ultimately show ?thesis
    by (metis mset_eq_imp_distinct_iff)
qed

lemma queues_ok_initial: "queues_ok (initial f)"
  by (simp add: queues_ok_def session_of_def get_session_def initial_def new_session_def)

lemma queues_ok_get: "queues_ok (fst (get_session u s)) = queues_ok s"
  by (simp add: queues_ok_def session_of_get get_session_frame)

lemma no_dups_cong: "profiles_file s' = profiles_file s \<Longrightarrow> no_dups s' = no_dups s"
  by (simp add: no_dups_def file_lines_def)

lemma queues_ok_set:
  "queues_ok s \<Longrightarrow> distinct (queue x) \<Longrightarrow> set (queue x) \<inter> reviewed_globally s = {} \<Longrightarrow>
   queues_ok (set_session u x s)"
  by (simp add: queues_ok_def session_of_set set_session_frame)

lemma queues_ok_mark: "queues_ok s \<Longrightarrow> queues_ok (mark_reviewed k s)"
  by (auto simp: queues_ok_def session_of_mark mark_reviewed_frame purge_session_fields
      dest: notin_set_remove1)

lemma queues_ok_remove: "queues_ok s \<Longrightarrow> queues_ok (remove_profile k s)"
  by (simp add: queues_ok_def remove_profile_frame)

lemma no_dups_remove: "no_dups s \<Longrightarrow> no_dups (remove_profile k s)"
  by (simp add: no_dups_def load_loop_remove)

lemma queues_ok_send_next: "queues_ok s \<Longrightarrow> queues_ok (fst (send_next vk u s))"
  by (simp add: queues_ok_def session_of_send_next send_next_frame)

lemma send_next_fresh:
  assumes "queues_ok s" and "Present v k \<in> set (snd (send_next vk u s))"
  shows "k \<notin> reviewed_globally s"
proof -
  from assms(2) obtain rest where "queue (session_of s u) = k # rest"
    by (auto simp: snd_send_next split: list.splits vk_call.splits)
  then have "k \<in> set (queue (session_of s u))" by simp
  moreover have "set (queue (session_of s u)) \<inter> reviewed_globally s = {}"
    using assms(1) by (simp add: queues_ok_def)
  ultimately show ?thesis by blast
qed

lemma queues_ok_session:
  "queues_ok s \<Longrightarrow> distinct (queue (session_of s u))"
  "queues_ok s \<Longrightarrow> set (queue (session_of s u)) \<inter> reviewed_globally s = {}"
  by (simp_all add: queues_ok_def)

lemma cmd_start_ok:
  assumes "no_dups s" and "queues_ok s"
  shows "queues_ok (fst (cmd_start vk u rnd s))"
    and "Present v k \<in> set (snd (cmd_start vk u rnd s)) \<Longrightarrow> k \<notin> reviewed_globally s"
proof -
  let ?s1 = "fst (get_session u s)"
  let ?x = "(session_of s u)\<lparr>queue := load_profiles rnd s, accepted := [], current := None\<rparr>"
  let ?s2 = "set_session u ?x ?s1"
  have s1: "queues_ok ?s1"
    using assms(2) by (simp add: queues_ok_get)
  have "set (load_profiles rnd s) \<inter> reviewed_globally ?s1 = {}"
    by (auto simp: load_profiles_set get_session_frame)
  with s1 assms(1) have s2: "queues_ok ?s2"
    by (intro queues_ok_set) (simp_all add: load_profiles_distinct)
  have eq: "cmd_start vk u rnd s =
      (if load_profiles rnd s = [] then (?s1, [NoProfiles u])
       else (fst (send_next vk u ?s2), Started u (length (load_profiles rnd s)) # snd (send_next vk u ?s2)))"
    by (simp add: cmd_start_def case_prod_unfold Let_def load_profiles_get get_session_snd)
  show "queues_ok (fst (cmd_start vk u rnd s))"
    using s1 s2 by (simp add: eq queues_ok_send_next)
  show "k \<notin> reviewed_globally s" if "Present v k \<in> set (snd (cmd_start vk u rnd s))"
  proof -
    from that have "Present v k \<in> set (snd (send_next vk u ?s2))"
      by (simp add: eq split: if_splits)
    with s2 have "k \<notin> reviewed_globally ?s2"
      by (rule send_next_fresh)
    then show ?thesis
      by (simp add: set_session_frame get_session_frame)
  qed
qed

lemma cmd_skip_ok:
  assumes "queues_ok s"
  shows "queues_ok (fst (cmd_skip vk u s))"
    and "Present v k \<in> set (snd (cmd_skip vk u s)) \<Longrightarrow> k \<notin> reviewed_globally s"
proof -
  let ?s1 = "fst (get_session u s)"
  let ?x = "(session_of s u)\<lparr>queue := tl (queue (session_of s u))\<rparr>"
  let ?s2 = "if queue (session_of s u) \<noteq> [] then set_session u ?x ?s1 else ?s1"
  have s1: "queues_ok ?s1"
    using assms by (simp add: queues_ok_get)
  have "set (tl (queue (session_of s u))) \<inter> reviewed_globally ?s1 = {}"
    using queues_ok_session(2) [OF assms, of u] list.set_sel(2) [of "queue (session_of s u)"]
    by (cases "queue (session_of s u)") (auto simp: get_session_frame)
  with s1 have "queues_ok (set_session u ?x ?s1)"
    by (intro queues_ok_set) (simp_all add: distinct_tl queues_ok_session(1) [OF assms])
  with s1 have s2: "queues_ok ?s2" by simp
  have eq: "cmd_skip vk u s = send_next vk u ?s2"
    by (simp add: cmd_skip_def case_prod_unfold Let_def get_session_snd)
  show "queues_ok (fst (cmd_skip vk u s))"
    using s2 by (simp only: eq queues_ok_send_next)
  show "k \<notin> reviewed_globally s" if "Present v k \<in> set (snd (cmd_skip vk u s))"
  proof -
    from that have "Present v k \<in> set (snd (send_next vk u ?s2))"
      by (simp only: eq)
    with s2 have "k \<notin> reviewed_globally ?s2"
      by (rule send_next_fresh)
    then show ?thesis
      by (simp add: set_session_frame get_session_frame split: if_splits)
  qed
qed

lemma on_callback_action_ok:
  assumes "queues_ok s" and "no_dups s" and "x = session_of s u"
  shows "queues_ok (fst (on_callback_action vk u action url x s))"
    and "no_dups (fst (on_callback_action vk u action url x s))"
    and "reviewed_globally s \<subseteq> reviewed_globally (fst (on_callback_action vk u action url x s))"
    and "Present v k \<in> set (snd (on_callback_action vk u action url x s)) \<Longrightarrow>
         k \<notin> reviewed_globally (fst (on_callback_action vk u action url x s))"
proof -
  let ?y = "set_session u (x\<lparr>accepted := accepted x @ [url]\<rparr>) s"
  let ?sy = "mark_reviewed url ?y"
  let ?sn = "remove_profile url (mark_reviewed url s)"
  have y: "queues_ok ?y"
    using assms(1,3) by (intro queues_ok_set) (simp_all add: queues_ok_session)
  then have sy: "queues_ok ?sy" by (rule queues_ok_mark)
  have sn: "queues_ok ?sn"
    using assms(1) by (intro queues_ok_remove queues_ok_mark)
  have eq: "on_callback_action vk u action url x s =
      (if action = str ''yes'' then (fst (send_next vk u ?sy), Added u url # snd (send_next vk u ?sy))
       else if action = str ''no'' then (fst (send_next vk u ?sn), Removed u # snd (send_next vk u ?sn))
       else send_next vk u s)"
    by (simp add: on_callback_action_def case_prod_unfold Let_def)
  show "queues_ok (fst (on_callback_action vk u action url x s))"
    using sy sn assms(1) by (simp add: eq queues_ok_send_next)
  show "no_dups (fst (on_callback_action vk u action url x s))"
  proof -
    have "no_dups (fst (send_next vk u ?sy)) = no_dups s"
      by (rule no_dups_cong) (simp add: send_next_frame mark_reviewed_frame set_session_frame)
    moreover have "no_dups (fst (send_next vk u ?sn)) = no_dups (remove_profile url s)"
      by (rule no_dups_cong)
        (simp add: send_next_frame remove_profile_def mark_reviewed_frame split: option.splits)
    moreover have "no_dups (fst (send_next vk u s)) = no_dups s"
      by (rule no_dups_cong) (simp add: send_next_frame)
    ultimately show ?thesis
      using assms(2) no_dups_remove [OF assms(2), of url] by (simp add: eq)
  qed
  show "reviewed_globally s \<subseteq> reviewed_globally (fst (on_callback_action vk u action url x s))"
    by (auto simp: eq send_next_frame mark_reviewed_frame set_session_frame remove_profile_frame)
  show "k \<notin> reviewed_globally (fst (on_callback_action vk u action url x s))"
    if "Present v k \<in> set (snd (on_callback_action vk u action url x s))"
  proof -
    let ?z = "if action = str ''yes'' then ?sy else if action = str ''no'' then ?sn else s"
    have z: "queues_ok ?z"
      using sy sn assms(1) by simp
    have "Present v k \<in> set (snd (send_next vk u ?z))"
      using that unfolding eq by (simp split: if_splits)
    with z have "k \<notin> reviewed_globally ?z"
      by (rule send_next_fresh)
    then show ?thesis
      unfolding eq by (simp add: send_next_frame split: if_splits)
  qed
qed

lemma sound_result_get:
  assumes "no_dups s" and "queues_ok s" and "\<forall>v k. Present v k \<notin> set outs"
  shows "sound_result s (fst (get_session u s), outs)"
proof -
  have "no_dups (fst (get_session u s)) = no_dups s"
    by (rule no_dups_cong) (simp add: get_session_frame)
  with assms show ?thesis
    by (simp add: sound_result_def queues_ok_get get_session_frame)
qed

lemma cmd_start_sound:
  assumes "no_dups s" and "queues_ok s"
  shows "sound_result s (cmd_start vk u rnd s)"
proof -
  have "no_dups (fst (cmd_start vk u rnd s)) = no_dups s"
    by (rule no_dups_cong) (simp add: cmd_start_frame)
  with assms cmd_start_ok [OF assms] show ?thesis
    by (simp add: sound_result_def cmd_start_frame)
qed

lemma cmd_skip_sound:
  assumes "no_dups s" and "queues_ok s"
  shows "sound_result s (cmd_skip vk u s)"
proof -
  have "no_dups (fst (cmd_skip vk u s)) = no_dups s"
    by (rule no_dups_cong) (simp add: cmd_skip_frame)
  with assms cmd_skip_ok [OF assms(2)] show ?thesis
    by (simp add: sound_result_def cmd_skip_frame)
qed

lemma on_callback_action_sound:
  assumes "no_dups s" and "queues_ok s" and "x = session_of s u"
  shows "sound_result s (on_callback_action vk u action url x s)"
  using on_callback_action_ok [OF assms(2,1,3)] by (simp add: sound_result_def)

lemma sound_result_weaken:
  "sound_result s1 r \<Longrightarrow> reviewed_globally s \<subseteq> reviewed_globally s1 \<Longrightarrow> sound_result s r"
  by (auto simp: sound_result_def)

lemma on_callback_sound:
  assumes "no_dups s" and "queues_ok s" and "on_callback vk u action field s = Inr r"
  shows "sound_result s r"
proof -
  obtain w where w: "owner_of u field = Inr w"
    using assms(3) by (cases "owner_of u field") (simp_all add: on_callback_def)
  let ?s1 = "fst (get_session w s)"
  have nd: "no_dups ?s1"
    using assms(1) no_dups_cong [of ?s1 s] by (simp add: get_session_frame)
  have qk: "queues_ok ?s1"
    using assms(2) by (simp add: queues_ok_get)
  consider (foreign) "r = (s, [NotYourSession u])"
    | (stale) "r = (?s1, [])"
    | (verdict) "r = on_callback_action vk w action (the (current (session_of s w))) (session_of s w) ?s1"
    using assms(3) w
    by (auto simp: on_callback_def case_prod_unfold Let_def get_session_snd split: if_splits)
  then show ?thesis
  proof cases
    case foreign
    with assms(1,2) show ?thesis by (simp add: sound_result_def)
  next
    case stale
    with assms(1,2) show ?thesis by (simp add: sound_result_get)
  next
    case verdict
    have "session_of s w = session_of ?s1 w"
      by (simp add: session_of_get)
    with nd qk have "sound_result ?s1 r"
      unfolding verdict by (rule on_callback_action_sound)
    then show ?thesis
      by (rule sound_result_weaken) (simp add: get_session_frame)
  qed
qed

lemma step_sound:
  assumes "no_dups s" and "queues_ok s"
  shows "sound_result s (step s e)"
proof (cases e)
  case (Start u rnd vk)
  with assms show ?thesis by (simp add: cmd_start_sound)
next
  case (Skip u vk)
  with assms show ?thesis by (simp add: cmd_skip_sound)
next
  case (StatusCmd u)
  with assms show ?thesis
    by (simp add: cmd_status_def case_prod_unfold Let_def sound_result_get)
next
  case (AcceptedCmd u)
  with assms show ?thesis
    by (simp add: cmd_accepted_def case_prod_unfold Let_def sound_result_get)
next
  case (Callback u action field vk)
  show ?thesis
  proof (cases "on_callback vk u action field s")
    case (Inl err)
    with Callback assms show ?thesis by (simp add: sound_result_def)
  next
    case (Inr r)
    with Callback on_callback_sound [OF assms Inr] show ?thesis by simp
  qed
qed

text \<open>
  When the file lists no URL twice, every run keeps the queues free of retired URLs and
  never presents a URL that was retired before the run.
\<close>

theorem run_without_duplicates:
  "no_dups s \<Longrightarrow> queues_ok s \<Longrightarrow>
   queues_ok (fst (run s es)) \<and>
   (\<forall>v k. k \<in> reviewed_globally s \<longrightarrow> Present v k \<notin> set (snd (run s es)))"
proof (induction es arbitrary: s)
  case Nil
  then show ?case by simp
next
  case (Cons e es)
  let ?s1 = "fst (step s e)"
  have st: "sound_result s (step s e)"
    using Cons.prems by (rule step_sound)
  then have "no_dups ?s1" and "queues_ok ?s1"
    by (simp_all add: sound_result_def)
  then have ih: "queues_ok (fst (run ?s1 es)) \<and>
      (\<forall>v k. k \<in> reviewed_globally ?s1 \<longrightarrow> Present v k \<notin> set (snd (run ?s1 es)))"
    by (rule Cons.IH)
  have "Present v k \<notin> set (snd (step s e)) \<and> Present v k \<notin> set (snd (run ?s1 es))"
    if "k \<in> reviewed_globally s" for v k
  proof -
    from st that have "k \<in> reviewed_globally ?s1"
      by (auto simp: sound_result_def)
    with st ih show ?thesis
      by (auto simp: sound_result_def)
  qed
  with ih show ?case
    by (simp add: case_prod_unfold Let_def)
qed

subsection \<open>Accepted profiles stay in the file\<close>

lemma settled_initial: "settled (initial f)"
  by (simp add: settled_def session_of_def get_session_def initial_def new_session_def)

lemma settled_get: "settled (fst (get_session u s)) = settled s"
  by (simp add: settled_def session_of_get get_session_frame)

lemma settled_remove: "settled (remove_profile k s) = settled s"
  by (simp add: settled_def remove_profile_frame)

lemma settled_set:
  "settled s \<Longrightarrow> current x = current (session_of s u) \<or> current x = None \<Longrightarrow>
   set (accepted x) \<subseteq> reviewed_globally s \<Longrightarrow> settled (set_session u x s)"
  by (auto simp: settled_def session_of_set set_session_frame)

lemma settled_mark: "settled s \<Longrightarrow> settled (mark_reviewed k s)"
  by (auto simp: settled_def session_of_mark mark_reviewed_frame purge_session_fields
      split: if_splits)

lemma settled_accept:
  "settled s \<Longrightarrow>
   settled (mark_reviewed url (set_session u ((session_of s u)\<lparr>accepted := accepted (session_of s u) @ [url]\<rparr>) s))"
  by (auto simp: settled_def session_of_mark mark_reviewed_frame purge_session_fields
      session_of_set set_session_frame split: if_splits)

lemma settled_send_next:
  assumes "queues_ok s" and "settled s"
  shows "settled (fst (send_next vk u s))"
proof -
  have "hd (queue (session_of s u)) \<notin> reviewed_globally s" if "queue (session_of s u) \<noteq> []"
    using that queues_ok_session(2) [OF assms(1), of u] hd_in_set [of "queue (session_of s u)"]
    by blast
  with assms(2) show ?thesis
    by (auto simp: settled_def session_of_send_next send_next_frame)
qed


lemma cmd_start_settled:
  assumes "no_dups s" and "queues_ok s" and "settled s"
  shows "settled (fst (cmd_start vk u rnd s))"
proof -
  let ?s1 = "fst (get_session u s)"
  let ?x = "(session_of s u)\<lparr>queue := load_profiles rnd s, accepted := [], current := None\<rparr>"
  let ?s2 = "set_session u ?x ?s1"
  have s1: "queues_ok ?s1" "settled ?s1"
    using assms by (simp_all add: queues_ok_get settled_get)
  have "set (load_profiles rnd s) \<inter> reviewed_globally ?s1 = {}"
    by (auto simp: load_profiles_set get_session_frame)
  with s1(1) assms(1) have q2: "queues_ok ?s2"
    by (intro queues_ok_set) (simp_all add: load_profiles_distinct)
  have t2: "settled ?s2"
    using s1(2) by (intro settled_set) simp_all
  have eq: "cmd_start vk u rnd s =
      (if load_profiles rnd s = [] then (?s1, [NoProfiles u])
       else (fst (send_next vk u ?s2), Started u (length (load_profiles rnd s)) # snd (send_next vk u ?s2)))"
    by (simp add: cmd_start_def case_prod_unfold Let_def load_profiles_get get_session_snd)
  show ?thesis
    using s1(2) settled_send_next [OF q2 t2] by (simp add: eq)
qed

lemma cmd_skip_settled:
  assumes "queues_ok s" and "settled s"
  shows "settled (fst (cmd_skip vk u s))"
proof -
  let ?s1 = "fst (get_session u s)"
  let ?x = "(session_of s u)\<lparr>queue := tl (queue (session_of s u))\<rparr>"
  let ?s2 = "if queue (session_of s u) \<noteq> [] then set_session u ?x ?s1 else ?s1"
  have s1: "queues_ok ?s1" "settled ?s1"
    using assms by (simp_all add: queues_ok_get settled_get)
  have "set (tl (queue (session_of s u))) \<inter> reviewed_globally ?s1 = {}"
    using queues_ok_session(2) [OF assms(1), of u] list.set_sel(2) [of "queue (session_of s u)"]
    by (cases "queue (session_of s u)") (auto simp: get_session_frame)
  with s1(1) have "queues_ok (set_session u ?x ?s1)"
    by (intro queues_ok_set) (simp_all add: distinct_tl queues_ok_session(1) [OF assms(1)])
  with s1(1) have q2: "queues_ok ?s2" by simp
  have "settled (set_session u ?x ?s1)"
    using s1(2) assms(2)
    by (intro settled_set) (simp_all add: session_of_get settled_def get_session_frame)
  with s1(2) have t2: "settled ?s2" by simp
  have eq: "cmd_skip vk u s = send_next vk u ?s2"
    by (simp add: cmd_skip_def case_prod_unfold Let_def get_session_snd)
  show ?thesis
    using settled_send_next [OF q2 t2] by (simp only: eq)
qed

lemma on_callback_action_settled:
  assumes "queues_ok s" and "settled s" and "x = session_of s u"
  shows "settled (fst (on_callback_action vk u action url x s))"
proof -
  let ?y = "set_session u (x\<lparr>accepted := accepted x @ [url]\<rparr>) s"
  let ?sy = "mark_reviewed url ?y"
  let ?sn = "remove_profile url (mark_reviewed url s)"
  have "queues_ok ?y"
    using assms(1,3) by (intro queues_ok_set) (simp_all add: queues_ok_session)
  then have qy: "queues_ok ?sy" by (rule queues_ok_mark)
  have qn: "queues_ok ?sn"
    using assms(1) by (intro queues_ok_remove queues_ok_mark)
  have ty: "settled ?sy"
    using assms(2) unfolding assms(3) by (rule settled_accept)
  have tn: "settled ?sn"
    using assms(2) by (simp add: settled_remove settled_mark)
  have eq: "on_callback_action vk u action url x s =
      (if action = str ''yes'' then (fst (send_next vk u ?sy), Added u url # snd (send_next vk u ?sy))
       else if action = str ''no'' then (fst (send_next vk u ?sn), Removed u # snd (send_next vk u ?sn))
       else send_next vk u s)"
    by (simp add: on_callback_action_def case_prod_unfold Let_def)
  show ?thesis
    using settled_send_next [OF qy ty] settled_send_next [OF qn tn]
      settled_send_next [OF assms(1,2)]
    by (simp add: eq)
qed

lemma on_callback_cases:
  assumes "on_callback vk u action field s = Inr r"
  obtains (foreign) "r = (s, [NotYourSession u])"
    | (stale) w where "r = (fst (get_session w s), [])"
    | (verdict) w url where "current (session_of s w) = Some url"
        and "r = on_callback_action vk w action url (session_of s w) (fst (get_session w s))"
proof -
  obtain w where w: "owner_of u field = Inr w"
    using assms by (cases "owner_of u field") (simp_all add: on_callback_def)
  show ?thesis
  proof (cases "u \<noteq> w")
    case True
    with assms w have "r = (s, [NotYourSession u])"
      by (simp add: on_callback_def)
    then show ?thesis by (rule foreign)
  next
    case False
    show ?thesis
    proof (cases "no_current (session_of s w)")
      case True
      with assms w False have "r = (fst (get_session w s), [])"
        by (auto simp: on_callback_def case_prod_unfold Let_def get_session_snd)
      then show ?thesis by (rule stale)
    next
      case nc: False
      then obtain url where c: "current (session_of s w) = Some url"
        by (auto simp: no_current_def split: option.splits)
      with assms w False nc
      have "r = on_callback_action vk w action url (session_of s w) (fst (get_session w s))"
        by (auto simp: on_callback_def case_prod_unfold Let_def get_session_snd)
      with c show ?thesis by (rule verdict)
    qed
  qed
qed

lemma on_callback_settled:
  assumes "queues_ok s" and "settled s" and "on_callback vk u action field s = Inr r"
  shows "settled (fst r)"
  using assms(3)
proof (cases rule: on_callback_cases)
  case foreign
  with assms(2) show ?thesis by simp
next
  case (stale w)
  with assms(2) show ?thesis by (simp add: settled_get)
next
  case (verdict w url)
  have "queues_ok (fst (get_session w s))" "settled (fst (get_session w s))"
    using assms(1,2) by (simp_all add: queues_ok_get settled_get)
  moreover have "session_of s w = session_of (fst (get_session w s)) w"
    by (simp add: session_of_get)
  ultimately show ?thesis
    unfolding verdict(2) by (rule on_callback_action_settled)
qed

lemma step_settled:
  assumes "no_dups s" and "queues_ok s" and "settled s"
  shows "settled (fst (step s e))"
proof (cases e)
  case (Start u rnd vk)
  with assms show ?thesis by (simp add: cmd_start_settled)
next
  case (Skip u vk)
  with assms show ?thesis by (simp add: cmd_skip_settled)
next
  case (StatusCmd u)
  with assms show ?thesis
    by (simp add: cmd_status_def case_prod_unfold Let_def settled_get)
next
  case (AcceptedCmd u)
  with assms show ?thesis
    by (simp add: cmd_accepted_def case_prod_unfold Let_def settled_get)
next
  case (Callback u action field vk)
  show ?thesis
  proof (cases "on_callback vk u action field s")
    case (Inl err)
    with Callback assms show ?thesis by simp
  next
    case (Inr r)
    with Callback on_callback_settled [OF assms(2,3) Inr] show ?thesis by simp
  qed
qed

lemma file_keys_cong: "profiles_file s' = profiles_file s \<Longrightarrow> file_keys s' = file_keys s"
  by (simp add: file_keys_def file_lines_def)

lemma file_keys_remove_other:
  assumes "a \<in> file_keys s" and "a \<noteq> k"
  shows "a \<in> file_keys (remove_profile k s)"
proof (cases "profiles_file s")
  case None
  with assms(1) show ?thesis by (simp add: file_lines_remove_None)
next
  case (Some body)
  from assms(1) obtain l where l: "l \<in> set (splitlines body)" "line_url l = a"
    using Some by (auto simp: file_keys_def file_lines_def)
  with assms(2) have "l \<in> set (filter (\<lambda>l. line_url l \<noteq> k) (splitlines body))"
    by simp
  moreover from this have "filter (\<lambda>l. line_url l \<noteq> k) (splitlines body) \<noteq> []"
    by (metis empty_iff list.set(1))
  ultimately have "l \<in> set (file_lines (remove_profile k s))"
    using Some by (simp add: file_lines_remove)
  with l(2) show ?thesis
    by (auto simp: file_keys_def)
qed

lemma on_callback_keeps:
  assumes "settled s" and "a \<in> reviewed_globally s" and "a \<in> file_keys s"
    and "on_callback vk u action field s = Inr r"
  shows "a \<in> file_keys (fst r)"
  using assms(4)
proof (cases rule: on_callback_cases)
  case foreign
  with assms(3) show ?thesis by simp
next
  case (stale w)
  have "file_keys (fst (get_session w s)) = file_keys s"
    by (rule file_keys_cong) (simp add: get_session_frame)
  with stale assms(3) show ?thesis by simp
next
  case (verdict w url)
  let ?s1 = "fst (get_session w s)"
  from assms(1,2) verdict(1) have ne: "a \<noteq> url"
    by (auto simp: settled_def)
  have s1: "file_keys ?s1 = file_keys s"
    by (rule file_keys_cong) (simp add: get_session_frame)
  show ?thesis
  proof (cases "action = str ''no''")
    case False
    then have "profiles_file (fst r) = profiles_file ?s1"
      unfolding verdict(2) by (rule on_callback_action_file)
    then have "file_keys (fst r) = file_keys ?s1"
      by (rule file_keys_cong)
    with s1 assms(3) show ?thesis by simp
  next
    case True
    have "profiles_file (fst r) = profiles_file (remove_profile url (mark_reviewed url ?s1))"
      using True str_yes_no
      by (simp add: verdict(2) on_callback_action_def case_prod_unfold Let_def send_next_frame)
    also have "\<dots> = profiles_file (remove_profile url ?s1)"
      by (simp add: remove_profile_def mark_reviewed_frame split: option.splits)
    finally have "file_keys (fst r) = file_keys (remove_profile url ?s1)"
      by (rule file_keys_cong)
    moreover have "a \<in> file_keys (remove_profile url ?s1)"
      using assms(3) ne by (intro file_keys_remove_other) (simp_all add: s1)
    ultimately show ?thesis by simp
  qed
qed

lemma step_keeps:
  assumes "settled s" and "a \<in> reviewed_globally s" and "a \<in> file_keys s"
  shows "a \<in> file_keys (fst (step s e))"
proof (cases e)
  case (Callback u action field vk)
  show ?thesis
  proof (cases "on_callback vk u action field s")
    case (Inl err)
    with Callback assms(3) show ?thesis by simp
  next
    case (Inr r)
    with Callback on_callback_keeps [OF assms Inr] show ?thesis by simp
  qed
next
  case (Start u rnd vk)
  then have "file_keys (fst (step s e)) = file_keys s"
    by (intro file_keys_cong) (simp add: cmd_start_frame)
  with assms(3) show ?thesis by simp
next
  case (Skip u vk)
  then have "file_keys (fst (step s e)) = file_keys s"
    by (intro file_keys_cong) (simp add: cmd_skip_frame)
  with assms(3) show ?thesis by simp
next
  case (StatusCmd u)
  then have "file_keys (fst (step s e)) = file_keys s"
    by (intro file_keys_cong) (simp add: cmd_status_frame)
  with assms(3) show ?thesis by simp
next
  case (AcceptedCmd u)
  then have "file_keys (fst (step s e)) = file_keys s"
    by (intro file_keys_cong) (simp add: cmd_accepted_frame)
  with assms(3) show ?thesis by simp
qed

lemma run_settled:
  "no_dups s \<Longrightarrow> queues_ok s \<Longrightarrow> settled s \<Longrightarrow>
   no_dups (fst (run s es)) \<and> queues_ok (fst (run s es)) \<and> settled (fst (run s es))"
proof (induction es arbitrary: s)
  case Nil
  then show ?case by simp
next
  case (Cons e es)
  let ?s1 = "fst (step s e)"
  have "sound_result s (step s e)"
    using Cons.prems(1,2) by (rule step_sound)
  then have "no_dups ?s1" and "queues_ok ?s1"
    by (simp_all add: sound_result_def)
  moreover have "settled ?s1"
    using Cons.prems by (rule step_settled)
  ultimately have "no_dups (fst (run ?s1 es)) \<and> queues_ok (fst (run ?s1 es)) \<and>
      settled (fst (run ?s1 es))"
    by (rule Cons.IH)
  then show ?case
    by (simp add: case_prod_unfold Let_def)
qed

lemma run_keeps:
  "no_dups s \<Longrightarrow> queues_ok s \<Longrightarrow> settled s \<Longrightarrow>
   a \<in> reviewed_globally s \<Longrightarrow> a \<in> file_keys s \<Longrightarrow> a \<in> file_keys (fst (run s es))"
proof (induction es arbitrary: s)
  case Nil
  then show ?case by simp
next
  case (Cons e es)
  let ?s1 = "fst (step s e)"
  have st: "sound_result s (step s e)"
    using Cons.prems(1,2) by (rule step_sound)
  then have "no_dups ?s1" and "queues_ok ?s1"
    by (simp_all add: sound_result_def)
  moreover have "settled ?s1"
    using Cons.prems(1,2,3) by (rule step_settled)
  moreover from st Cons.prems(4) have "a \<in> reviewed_globally ?s1"
    by (auto simp: sound_result_def)
  moreover have "a \<in> file_keys ?s1"
    using Cons.prems(3,4,5) by (rule step_keeps)
  ultimately have "a \<in> file_keys (fst (run ?s1 es))"
    by (rule Cons.IH)
  then show ?case
    by (simp add: case_prod_unfold Let_def)
qed

text \<open>
  When the file lists no URL twice, a profile that is in the accepted list of some user
  after a run of the bot, and is in the file then, is in the file after every further
  run: no press of \<open>no\<close> removes it.
\<close>

theorem accepted_profile_persists:
  assumes "no_dups (initial f)"
    and "a \<in> set (accepted (session_of (fst (run (initial f) es)) u))"
    and "a \<in> file_keys (fst (run (initial f) es))"
  shows "a \<in> file_keys (fst (run (fst (run (initial f) es)) es'))"
proof -
  let ?s = "fst (run (initial f) es)"
  have inv: "no_dups ?s \<and> queues_ok ?s \<and> settled ?s"
    using assms(1) queues_ok_initial settled_initial by (rule run_settled)
  with assms(2) have "a \<in> reviewed_globally ?s"
    by (auto simp: settled_def)
  with inv assms(3) show ?thesis
    by (simp add: run_keeps)
qed

text \<open>
  On the file \<open>a\<close>: user 1 has accepted \<open>a\<close>; user 2 then starts and presses \<open>no\<close>,
  and \<open>a\<close> is still in the file.
\<close>

lemma accepted_profile_persists_example:
  "url_a \<in> file_keys (fst (run done_a
     [Start 2 draw0 VkReturns, Callback 2 (str ''no'') (Owner 2) VkReturns, Skip 1 VkRaises]))"
proof -
  have "no_dups (initial (Some file_a))"
    by (simp add: no_dups_def text_defs bot_defs example_defs Let_def)
  moreover have "url_a \<in> set (accepted (session_of done_a 1))"
    by (simp add: text_defs bot_defs example_defs Let_def)
  moreover have "url_a \<in> file_keys done_a"
    by (simp add: text_defs bot_defs example_defs Let_def)
  ultimately show ?thesis
    unfolding done_a_def by (rule accepted_profile_persists)
qed

subsection \<open>A press after a restart\<close>

text \<open>
  The callback data of a button are \<open>yes:u\<close> or \<open>no:u\<close>: they name the user, not the
  profile the button was shown with. User 1 starts on the file \<open>a, b\<close> and is shown \<open>b\<close>,
  starts again and is shown \<open>a\<close>; a press of \<open>yes\<close>, which either keyboard sends as
  \<open>yes:1\<close>, then accepts and retires \<open>a\<close>.
\<close>

lemma press_after_restart:
  "snd (run (initial (Some file_ab)) [Start 1 draw0 VkReturns, Start 1 draw_last VkReturns]) =
     [Started 1 2, Loading 1 url_b, Present 1 url_b, Started 1 2, Loading 1 url_a, Present 1 url_a] \<and>
   accepted (session_of (fst (run (initial (Some file_ab))
     [Start 1 draw0 VkReturns, Start 1 draw_last VkReturns,
      Callback 1 (str ''yes'') (Owner 1) VkReturns])) 1) = [url_a] \<and>
   reviewed_globally (fst (run (initial (Some file_ab))
     [Start 1 draw0 VkReturns, Start 1 draw_last VkReturns,
      Callback 1 (str ''yes'') (Owner 1) VkReturns])) = {url_a}"
  by (simp add: text_defs bot_defs example_defs Let_def)

section \<open>The claims\<close>

lemmas eval_defs = text_defs bot_defs example_defs Let_def

text \<open>
  C1. Once a key has been retired by \<open>mark_reviewed\<close> for one user, no other user is
  shown it by \<open>send_next\<close>. The code breaks this when \<open>profiles.txt\<close> lists a URL more
  than once: \<open>mark_reviewed\<close> removes one occurrence from each queue. On the file with
  three lines \<open>a\<close>, users 1 and 2 start and user 1 accepts \<open>a\<close>; \<open>a\<close> is then retired, and
  the next \<open>/skip\<close> of user 2 shows \<open>a\<close> to user 2. Whether or not the call to VK
  returns, \<open>a\<close> is then the current profile of user 2.
\<close>

theorem dup_profile_shown_after_retirement:
  "url_a \<in> reviewed_globally shared_aaa \<and>
   accepted (session_of shared_aaa 1) = [url_a] \<and>
   snd (step shared_aaa (Skip 2 VkReturns)) = [Loading 2 url_a, Present 2 url_a] \<and>
   current (session_of (fst (step shared_aaa (Skip 2 VkReturns))) 2) = Some url_a \<and>
   current (session_of (fst (step shared_aaa (Skip 2 VkRaises))) 2) = Some url_a"
  by (simp add: eval_defs)

text \<open>
  C2, as the code has it. \<open>cmd_start\<close> loads a permutation of the keys of the file that
  are not empty and not retired, and changes neither \<open>reviewed_globally\<close>, nor the file,
  nor the session of another user. When at least one key is available, then whatever the
  session held before (a presentation may be in flight) the handler first makes the
  queue that list, \<open>accepted\<close> empty and \<open>current\<close> empty, and then calls \<open>send_next\<close>,
  which makes the head of the new queue the current profile. When no key is available,
  the handler answers that no profiles are available and leaves the session as it was.
\<close>

theorem cmd_start_resets:
  "mset (load_profiles rnd s) =
     mset (filter (\<lambda>k. k \<noteq> [] \<and> k \<notin> reviewed_globally s) (map line_url (file_lines s))) \<and>
   reviewed_globally (fst (cmd_start vk u rnd s)) = reviewed_globally s \<and>
   profiles_file (fst (cmd_start vk u rnd s)) = profiles_file s \<and>
   (\<forall>v. v \<noteq> u \<longrightarrow> session_of (fst (cmd_start vk u rnd s)) v = session_of s v) \<and>
   (load_profiles rnd s \<noteq> [] \<longrightarrow>
      (\<exists>s2. session_of s2 u =
               \<lparr>queue = load_profiles rnd s, current = None, accepted = []\<rparr> \<and>
            cmd_start vk u rnd s =
              (fst (send_next vk u s2),
               Started u (length (load_profiles rnd s)) # snd (send_next vk u s2))) \<and>
      queue (session_of (fst (cmd_start vk u rnd s)) u) = load_profiles rnd s \<and>
      accepted (session_of (fst (cmd_start vk u rnd s)) u) = [] \<and>
      current (session_of (fst (cmd_start vk u rnd s)) u) = Some (hd (load_profiles rnd s))) \<and>
   (load_profiles rnd s = [] \<longrightarrow>
      session_of (fst (cmd_start vk u rnd s)) u = session_of s u \<and>
      snd (cmd_start vk u rnd s) = [NoProfiles u])"
proof -
  let ?x = "(session_of s u)\<lparr>queue := load_profiles rnd s, accepted := [], current := None\<rparr>"
  let ?s2 = "set_session u ?x (fst (get_session u s))"
  have "session_of ?s2 u = \<lparr>queue = load_profiles rnd s, current = None, accepted = []\<rparr>"
    by (simp add: session_of_set)
  moreover have "cmd_start vk u rnd s =
      (fst (send_next vk u ?s2), Started u (length (load_profiles rnd s)) # snd (send_next vk u ?s2))"
    if "load_profiles rnd s \<noteq> []"
    using that
    by (simp add: cmd_start_def case_prod_unfold Let_def load_profiles_get get_session_snd)
  ultimately have reset: "\<exists>s2. session_of s2 u =
               \<lparr>queue = load_profiles rnd s, current = None, accepted = []\<rparr> \<and>
            cmd_start vk u rnd s =
              (fst (send_next vk u s2),
               Started u (length (load_profiles rnd s)) # snd (send_next vk u s2))"
    if "load_profiles rnd s \<noteq> []"
    using that by blast
  show ?thesis
    using reset
    by (simp add: load_profiles_mset cmd_start_session cmd_start_out cmd_start_frame)
qed

text \<open>
  At concrete inputs: a start on the file \<open>a, b\<close>; a second start by user 1, seen from
  user 2; and a start by user 1 after the only profile has been accepted.
\<close>

theorem cmd_start_resets_witness:
  "load_profiles draw0 (initial (Some file_ab)) \<noteq> [] \<and>
   queue (session_of (fst (cmd_start VkReturns 1 draw0 (initial (Some file_ab)))) 1) = [url_b, url_a] \<and>
   accepted (session_of (fst (cmd_start VkReturns 1 draw0 (initial (Some file_ab)))) 1) = [] \<and>
   current (session_of (fst (cmd_start VkReturns 1 draw0 (initial (Some file_ab)))) 1) = Some url_b \<and>
   (2::int) \<noteq> 1 \<and>
   session_of (fst (cmd_start VkReturns 1 draw0 started_ab)) 2 = session_of started_ab 2 \<and>
   load_profiles draw0 done_a = [] \<and>
   session_of (fst (cmd_start VkReturns 1 draw0 done_a)) 1 = session_of done_a 1"
proof -
  have h1: "load_profiles draw0 (initial (Some file_ab)) \<noteq> []"
    by (simp add: eval_defs)
  have h2: "load_profiles draw0 (initial (Some file_ab)) = [url_b, url_a]"
    by (simp add: eval_defs)
  have h3: "load_profiles draw0 done_a = []"
    by (simp add: eval_defs)
  show ?thesis
    using h1 h2 h3
      cmd_start_resets [of draw0 "initial (Some file_ab)" VkReturns 1]
      cmd_start_resets [of draw0 started_ab VkReturns 1]
      cmd_start_resets [of draw0 done_a VkReturns 1]
    by simp
qed

text \<open>
  The start that does not reset: after user 1 has accepted the only profile of the file,
  nothing is available, and a new start leaves \<open>accepted\<close> as it was.
\<close>

theorem cmd_start_keeps_accepted_when_empty:
  "load_profiles draw0 done_a = [] \<and>
   accepted (session_of done_a 1) = [url_a] \<and>
   accepted (session_of (fst (cmd_start VkReturns 1 draw0 done_a)) 1) = [url_a]"
  by (simp add: eval_defs)

text \<open>
  C3. \<open>current\<close> holds a key only while its presentation is outstanding; in particular not
  after a skip past the last profile, when \<open>send_next\<close> reports completion. The code
  breaks this: \<open>send_next\<close> returns on the empty queue without clearing \<open>current\<close>. On the
  file \<open>a\<close>, user 1 starts and skips: completion is reported, the queue is empty and
  \<open>current\<close> is still \<open>a\<close>, so that a later press of \<open>yes\<close> accepts and retires the
  skipped profile.
\<close>

theorem skip_last_keeps_current:
  "queue (session_of skipped_a 1) = [] \<and>
   current (session_of skipped_a 1) = Some url_a \<and>
   snd (run (initial (Some file_a)) [Start 1 draw0 VkReturns, Skip 1 VkReturns]) =
     [Started 1 1, Loading 1 url_a, Present 1 url_a, Complete 1 []] \<and>
   accepted (session_of (fst (step skipped_a (Callback 1 (str ''yes'') (Owner 1) VkReturns))) 1) =
     [url_a] \<and>
   url_a \<in> reviewed_globally (fst (step skipped_a (Callback 1 (str ''yes'') (Owner 1) VkReturns)))"
  by (simp add: eval_defs)

text \<open>
  C4. \<open>send_next\<close> drops a retired head of the queue, so that the key it makes current
  and presents is never a retired one. The code breaks this: \<open>send_next\<close> does not read
  \<open>reviewed_globally\<close>, and a retired key is left at the head of a queue when
  \<open>profiles.txt\<close> lists a URL more than once, since \<open>mark_reviewed\<close> removes one
  occurrence. On the file that lists \<open>a\<close> twice, user 1 starts and presses \<open>yes\<close>: the
  handler retires \<open>a\<close> and its \<open>send_next\<close> presents \<open>a\<close> again. In the state reached,
  \<open>a\<close> is retired and is the head of the queue; \<open>send_next\<close> presents it, keeps it in
  the queue, and makes it current also when the call to VK raises.
\<close>

theorem retired_head_presented:
  "queue (session_of started_aa 1) = [url_a, url_a] \<and>
   snd (step started_aa (Callback 1 (str ''yes'') (Owner 1) VkReturns)) =
     [Added 1 url_a, Loading 1 url_a, Present 1 url_a] \<and>
   url_a \<in> reviewed_globally accepted_aa \<and>
   queue (session_of accepted_aa 1) = [url_a] \<and>
   current (session_of accepted_aa 1) = Some url_a \<and>
   snd (send_next VkReturns 1 accepted_aa) = [Loading 1 url_a, Present 1 url_a] \<and>
   queue (session_of (fst (send_next VkReturns 1 accepted_aa)) 1) = [url_a] \<and>
   current (session_of (fst (send_next VkRaises 1 accepted_aa)) 1) = Some url_a"
  by (simp add: eval_defs)




text \<open>
  C6. When the owner of a session presses \<open>no\<close> while \<open>k\<close> is the session's current
  profile, the verdict is processed, and afterwards \<open>k\<close> is in \<open>reviewed_globally\<close>, no
  line of \<open>profiles.txt\<close> has the key \<open>k\<close>, and \<open>load_profiles\<close> does not list \<open>k\<close>,
  whatever the shuffle draws: and this whether or not the call to VK of the \<open>send_next\<close>
  that follows the verdict returns.
\<close>

theorem reject_round_trip:
  assumes "owner_of u field = Inr u"
    and "current (session_of s u) = Some k"
    and "k \<noteq> []"
  shows "\<exists>s' outs. on_callback vk u (str ''no'') field s = Inr (s', outs) \<and>
           k \<in> reviewed_globally s' \<and>
           k \<notin> file_keys s' \<and>
           (\<forall>rnd. k \<notin> set (load_profiles rnd s'))"
proof -
  let ?s1 = "fst (get_session u s)"
  let ?s3 = "remove_profile k (mark_reviewed k ?s1)"
  let ?r = "send_next vk u ?s3"
  have cb: "on_callback vk u (str ''no'') field s = Inr (fst ?r, Removed u # snd ?r)"
    using assms str_yes_no
    by (simp add: on_callback_def on_callback_action_def case_prod_unfold Let_def
        get_session_snd no_current_def)
  have rv: "k \<in> reviewed_globally (fst ?r)"
    by (simp add: send_next_frame remove_profile_frame mark_reviewed_frame)
  have "file_keys (fst ?r) = file_keys ?s3"
    by (simp add: file_keys_def file_lines_def send_next_frame)
  with assms(3) have fk: "k \<notin> file_keys (fst ?r)"
    by (simp add: file_keys_remove)
  then have "\<forall>rnd. k \<notin> set (load_profiles rnd (fst ?r))"
    by (simp add: load_profiles_set)
  with cb rv fk show ?thesis by blast
qed

text \<open>
  At a concrete input: user 1 rejects \<open>b\<close>, the profile shown first on the file \<open>a, b\<close>,
  with a call to VK that returns and with one that raises.
\<close>

theorem reject_round_trip_witness:
  "owner_of 1 (Owner 1) = Inr 1 \<and>
   current (session_of started_ab 1) = Some url_b \<and>
   url_b \<noteq> [] \<and>
   (\<exists>s' outs. on_callback VkReturns 1 (str ''no'') (Owner 1) started_ab = Inr (s', outs) \<and>
      url_b \<in> reviewed_globally s' \<and>
      url_b \<notin> file_keys s' \<and>
      (\<forall>rnd. url_b \<notin> set (load_profiles rnd s'))) \<and>
   (\<exists>s' outs. on_callback VkRaises 1 (str ''no'') (Owner 1) started_ab = Inr (s', outs) \<and>
      url_b \<in> reviewed_globally s' \<and>
      url_b \<notin> file_keys s' \<and>
      (\<forall>rnd. url_b \<notin> set (load_profiles rnd s')))"
proof -
  have h1: "owner_of 1 (Owner 1) = Inr 1"
    by (simp add: owner_of_def)
  have h2: "current (session_of started_ab 1) = Some url_b"
    by (simp add: eval_defs)
  have h3: "url_b \<noteq> []"
    by (simp add: url_b_def str_def)
  show ?thesis
    using h1 h2 h3
      reject_round_trip [OF h1 h2 h3, where vk = VkReturns]
      reject_round_trip [OF h1 h2 h3, where vk = VkRaises]
    by blast
qed

text \<open>
  C7, as the code has it. When the file exists, \<open>remove_profile\<close> deletes exactly the
  lines whose key is the given one: the lines read back are the other lines, each as it
  was (label included) and in their order, and the text written is these lines joined by
  LF, with a final LF (a single LF when no line is left, which reads back as one empty
  line). No line has the key afterwards (a key that is not empty). When no line has the
  key, the lines of a file that has any are the same; the text itself is written anew,
  so it is the same only if it was already its lines joined by LF with a final LF. When
  the file does not exist nothing happens. A second removal of the same key changes
  nothing. \<open>reviewed_globally\<close> and the sessions are not touched.
\<close>

theorem remove_profile_lines:
  "(profiles_file s \<noteq> None \<longrightarrow>
      file_lines (remove_profile k s) =
        (if filter (\<lambda>l. line_url l \<noteq> k) (file_lines s) = [] then [[]]
         else filter (\<lambda>l. line_url l \<noteq> k) (file_lines s)) \<and>
      profiles_file (remove_profile k s) =
        Some (join_lines (filter (\<lambda>l. line_url l \<noteq> k) (file_lines s)) @ [LF])) \<and>
   (k \<noteq> [] \<longrightarrow> k \<notin> file_keys (remove_profile k s)) \<and>
   (k \<notin> file_keys s \<longrightarrow> file_lines s \<noteq> [] \<longrightarrow>
      file_lines (remove_profile k s) = file_lines s) \<and>
   (k \<notin> file_keys s \<longrightarrow> profiles_file s = Some (join_lines (file_lines s) @ [LF]) \<longrightarrow>
      remove_profile k s = s) \<and>
   (profiles_file s = None \<longrightarrow> remove_profile k s = s) \<and>
   remove_profile k (remove_profile k s) = remove_profile k s \<and>
   reviewed_globally (remove_profile k s) = reviewed_globally s \<and>
   sessions (remove_profile k s) = sessions s"
proof -
  let ?kept = "filter (\<lambda>l. line_url l \<noteq> k) (file_lines s)"
  have absent: "?kept = file_lines s" if "k \<notin> file_keys s"
    using that by (auto simp: file_keys_def filter_id_conv)
  have lines: "file_lines (remove_profile k s) = (if ?kept = [] then [[]] else ?kept)"
    and written: "profiles_file (remove_profile k s) = Some (join_lines ?kept @ [LF])"
    if "profiles_file s \<noteq> None"
  proof -
    from that obtain body where body: "profiles_file s = Some body" by blast
    then have fl: "file_lines s = splitlines body" by (simp add: file_lines_def)
    show "file_lines (remove_profile k s) = (if ?kept = [] then [[]] else ?kept)"
      using file_lines_remove [OF body, of k] by (simp add: fl)
    show "profiles_file (remove_profile k s) = Some (join_lines ?kept @ [LF])"
      using body by (simp add: remove_profile_def fl)
  qed
  have same_lines: "file_lines (remove_profile k s) = file_lines s"
    if "k \<notin> file_keys s" "file_lines s \<noteq> []"
  proof -
    from that(2) have "profiles_file s \<noteq> None"
      by (cases "profiles_file s") (simp_all add: file_lines_def)
    then show ?thesis
      using lines absent [OF that(1)] that(2) by simp
  qed
  have same_text: "remove_profile k s = s"
    if "k \<notin> file_keys s" "profiles_file s = Some (join_lines (file_lines s) @ [LF])"
  proof -
    from that(2) have "profiles_file s \<noteq> None" by simp
    then have "profiles_file (remove_profile k s) = profiles_file s"
      using written absent [OF that(1)] that(2) by simp
    moreover have "remove_profile k s = s\<lparr>profiles_file := profiles_file (remove_profile k s)\<rparr>"
      by (simp add: remove_profile_def split: option.splits)
    ultimately show ?thesis by simp
  qed
  have frame: "sessions (remove_profile k s) = sessions s"
    by (simp add: remove_profile_def split: option.splits)
  show ?thesis
    using lines written same_lines same_text frame
    by (simp add: file_keys_remove file_lines_remove_None remove_profile_idem remove_profile_frame)
qed

text \<open>
  At concrete inputs: \<open>a\<close> removed from a file of two labelled lines, of which the line
  of \<open>b\<close> is left as it was; \<open>b\<close> removed from the file \<open>a\<close>, which does not list it
  and ends in LF; a removal when there is no file.
\<close>

theorem remove_profile_lines_witness:
  "profiles_file (initial (Some file_labels)) \<noteq> None \<and>
   file_lines (remove_profile url_a (initial (Some file_labels))) = [str ''b | Bob''] \<and>
   profiles_file (remove_profile url_a (initial (Some file_labels))) = Some (str ''b | Bob'' @ [LF]) \<and>
   url_a \<noteq> [] \<and>
   url_a \<notin> file_keys (remove_profile url_a (initial (Some file_labels))) \<and>
   url_b \<notin> file_keys (initial (Some file_a)) \<and>
   file_lines (initial (Some file_a)) \<noteq> [] \<and>
   profiles_file (initial (Some file_a)) = Some (join_lines (file_lines (initial (Some file_a))) @ [LF]) \<and>
   remove_profile url_b (initial (Some file_a)) = initial (Some file_a) \<and>
   profiles_file (initial None) = None \<and>
   remove_profile url_a (initial None) = initial None"
proof -
  have h1: "profiles_file (initial (Some file_labels)) \<noteq> None"
    by (simp add: initial_def)
  have h2: "url_a \<noteq> []"
    by (simp add: url_a_def str_def)
  have h3: "url_b \<notin> file_keys (initial (Some file_a))"
    by (simp add: eval_defs)
  have h4: "file_lines (initial (Some file_a)) \<noteq> []"
    by (simp add: eval_defs)
  have h5: "profiles_file (initial (Some file_a)) =
      Some (join_lines (file_lines (initial (Some file_a))) @ [LF])"
    by (simp add: eval_defs)
  have h6: "profiles_file (initial None) = None"
    by (simp add: initial_def)
  have e1: "filter (\<lambda>l. line_url l \<noteq> url_a) (file_lines (initial (Some file_labels))) =
      [str ''b | Bob'']"
    by (simp add: eval_defs)
  show ?thesis
    using h1 h2 h3 h4 h5 h6 e1
      remove_profile_lines [of "initial (Some file_labels)" url_a]
      remove_profile_lines [of "initial (Some file_a)" url_b]
      remove_profile_lines [of "initial None" url_a]
    by simp
qed

text \<open>
  The removal of an absent key that changes the file: the file holds \<open>a\<close> with no line
  end; after \<open>b\<close> is removed it holds \<open>a\<close> and a line end.
\<close>

theorem remove_profile_rewrites_file:
  "url_b \<notin> file_keys (initial (Some file_a_open)) \<and>
   profiles_file (initial (Some file_a_open)) = Some url_a \<and>
   profiles_file (remove_profile url_b (initial (Some file_a_open))) = Some (url_a @ [LF])"
  by (simp add: eval_defs)

text \<open>
  C8. A button press by a user who is not the owner named in the callback data, or a
  press when the owner's session has no current profile, changes nothing: the handler
  returns before it reaches \<open>send_next\<close>, \<open>reviewed_globally\<close> and \<open>profiles.txt\<close> are as
  before, and every session has the queue, the current profile and the accepted list it
  had. The only message is the alert to the user who is not the owner.
\<close>

theorem stale_or_foreign_verdict_ignored:
  assumes "owner_of u field = Inr w"
    and "u \<noteq> w \<or> no_current (session_of s w)"
  shows "\<exists>s'. on_callback vk u action field s =
                Inr (s', if u \<noteq> w then [NotYourSession u] else []) \<and>
           reviewed_globally s' = reviewed_globally s \<and>
           profiles_file s' = profiles_file s \<and>
           (\<forall>v. session_of s' v = session_of s v)"
proof (cases "u = w")
  case False
  with assms(1) show ?thesis
    by (simp add: on_callback_def)
next
  case True
  with assms have "on_callback vk u action field s = Inr (fst (get_session w s), [])"
    by (simp add: on_callback_def case_prod_unfold Let_def get_session_snd)
  with True show ?thesis
    by (simp add: get_session_frame session_of_get)
qed

text \<open>
  At concrete inputs: user 2 presses a button of user 1; user 1 presses a button when
  nothing is current.
\<close>

theorem stale_or_foreign_verdict_ignored_witness:
  "owner_of 2 (Owner 1) = Inr 1 \<and>
   no_current (session_of done_a 1) \<and>
   (\<exists>s'. on_callback VkReturns 2 (str ''yes'') (Owner 1) started_ab = Inr (s', [NotYourSession 2]) \<and>
      reviewed_globally s' = reviewed_globally started_ab \<and>
      profiles_file s' = profiles_file started_ab \<and>
      (\<forall>v. session_of s' v = session_of started_ab v)) \<and>
   (\<exists>s'. on_callback VkRaises 1 (str ''no'') (Owner 1) done_a = Inr (s', []) \<and>
      reviewed_globally s' = reviewed_globally done_a \<and>
      profiles_file s' = profiles_file done_a \<and>
      (\<forall>v. session_of s' v = session_of done_a v))"
proof -
  have h1: "owner_of 2 (Owner 1) = Inr 1" "owner_of 1 (Owner 1) = Inr 1"
    by (simp_all add: owner_of_def)
  have h2: "(2::int) \<noteq> 1 \<or> no_current (session_of started_ab 1)"
    by simp
  have h3: "no_current (session_of done_a 1)"
    by (simp add: eval_defs)
  then have h4: "(1::int) \<noteq> 1 \<or> no_current (session_of done_a 1)"
    by simp
  show ?thesis
    using h1(1) h3
      stale_or_foreign_verdict_ignored
        [OF h1(1) h2, where vk = VkReturns and action = "str ''yes''"]
      stale_or_foreign_verdict_ignored
        [OF h1(2) h4, where vk = VkRaises and action = "str ''no''"]
    by simp
qed

text \<open>
  C9. Acceptance does not alter \<open>profiles.txt\<close>, and an accepted profile stays in the
  file. The code breaks the second part when \<open>profiles.txt\<close> lists a URL more than once.
  On the file that lists \<open>a\<close> twice, user 1 starts and presses \<open>yes\<close>: the file is as
  it was and \<open>a\<close> is accepted, but \<open>mark_reviewed\<close> has removed one occurrence of \<open>a\<close>
  from the queue and \<open>send_next\<close> shows \<open>a\<close> again. User 1 presses \<open>no\<close>: \<open>a\<close> is still
  in the accepted list of user 1, and \<open>remove_profile\<close> has deleted every line of \<open>a\<close>
  from the file. (When the file lists no URL twice an accepted profile does stay in the
  file, as shown above.)
\<close>

theorem accepted_profile_deleted:
  "profiles_file started_aa = Some file_aa \<and>
   profiles_file accepted_aa = Some file_aa \<and>
   accepted (session_of accepted_aa 1) = [url_a] \<and>
   url_a \<in> file_keys accepted_aa \<and>
   current (session_of accepted_aa 1) = Some url_a \<and>
   accepted (session_of (fst (step accepted_aa (Callback 1 (str ''no'') (Owner 1) VkReturns))) 1) =
     [url_a] \<and>
   url_a \<notin> file_keys (fst (step accepted_aa (Callback 1 (str ''no'') (Owner 1) VkReturns))) \<and>
   profiles_file (fst (step accepted_aa (Callback 1 (str ''no'') (Owner 1) VkReturns))) = Some [LF]"
  by (simp add: eval_defs)

text \<open>
  C10. Between operations no queue holds a retired key. The code breaks this when
  \<open>profiles.txt\<close> lists a URL more than once, by the same removal of a single occurrence
  in \<open>mark_reviewed\<close>: on the file that lists \<open>a\<close> twice, users 1 and 2 start and user 1
  accepts \<open>a\<close>; \<open>a\<close> is retired and is still in the queue of user 2.
\<close>

theorem dup_profile_stays_queued:
  "url_a \<in> reviewed_globally shared_aa \<and> queue (session_of shared_aa 2) = [url_a]"
  by (simp add: eval_defs)

end
